theory Spec2Isabelle
  imports Complex_Main "HOL-Library.Word"
begin

section \<open>Strings and the regular expressions of \<open>src/lib/wer.ts\<close>\<close>

text \<open>
  A JavaScript string is a sequence of UTF-16 code units. The regular expressions of
  \<open>wer.ts\<close> carry no \<open>u\<close> flag, so they match one code unit at a time, and
  \<open>length\<close> counts code units. Lengths are unbounded naturals here; the memory of
  the engine enters only in \<open>calculateWER_run\<close> below, as a parameter.
\<close>

type_synonym jsstring = "16 word list"

definition js :: "string \<Rightarrow> jsstring" where
  \<comment> \<open>the JavaScript string literal made of the given ASCII characters\<close>
  "js s = map (\<lambda>c. of_nat (of_char c)) s"

definition isWhiteSpace :: "16 word \<Rightarrow> bool" where
  \<comment> \<open>the class \<open>\s\<close> (WhiteSpace and LineTerminator of ECMAScript), also what \<open>trim\<close> strips\<close>
  "isWhiteSpace c \<longleftrightarrow>
     c = 0x9 \<or> c = 0xA \<or> c = 0xB \<or> c = 0xC \<or> c = 0xD \<or> c = 0x20 \<or> c = 0xA0 \<or>
     c = 0x1680 \<or> (0x2000 \<le> c \<and> c \<le> 0x200A) \<or> c = 0x2028 \<or> c = 0x2029 \<or>
     c = 0x202F \<or> c = 0x205F \<or> c = 0x3000 \<or> c = 0xFEFF"

definition isWordChar :: "16 word \<Rightarrow> bool" where
  \<comment> \<open>the class \<open>\w\<close>: \<open>[A-Za-z0-9_]\<close>\<close>
  "isWordChar c \<longleftrightarrow>
     (0x41 \<le> c \<and> c \<le> 0x5A) \<or> (0x61 \<le> c \<and> c \<le> 0x7A) \<or> (0x30 \<le> c \<and> c \<le> 0x39) \<or> c = 0x5F"

definition isPunctuation :: "16 word \<Rightarrow> bool" where
  \<comment> \<open>the negated class \<open>[^\w\s\u00C0-\u024F\u1E00-\u1EFF]\<close> of line 52\<close>
  "isPunctuation c \<longleftrightarrow>
     \<not> (isWordChar c \<or> isWhiteSpace c \<or> (0xC0 \<le> c \<and> c \<le> 0x24F) \<or> (0x1E00 \<le> c \<and> c \<le> 0x1EFF))"

definition replace_class :: "(16 word \<Rightarrow> bool) \<Rightarrow> jsstring \<Rightarrow> jsstring \<Rightarrow> jsstring" where
  \<comment> \<open>\<open>s.replace(/[class]/g, repl)\<close>: every code unit of the class gives way to \<open>repl\<close>\<close>
  "replace_class P repl s = concat (map (\<lambda>c. if P c then repl else [c]) s)"

function replace_runs :: "(16 word \<Rightarrow> bool) \<Rightarrow> jsstring \<Rightarrow> jsstring \<Rightarrow> jsstring" where
  \<comment> \<open>\<open>s.replace(/[class]+/g, repl)\<close>: the match is greedy, a whole run gives way to one \<open>repl\<close>\<close>
  "replace_runs P repl [] = []"
| "replace_runs P repl (c # cs) =
     (if P c then repl @ replace_runs P repl (dropWhile P cs)
      else c # replace_runs P repl cs)"
  by pat_completeness auto
termination
  by (relation "measure (\<lambda>(P, repl, s). length s)")
     (auto simp: less_Suc_eq_le length_dropWhile_le)

function split_runs :: "(16 word \<Rightarrow> bool) \<Rightarrow> jsstring \<Rightarrow> jsstring \<Rightarrow> jsstring list" where
  \<comment> \<open>\<open>s.split(/[class]+/)\<close>, with the fragment read so far: a run of the class closes the
      fragment (also an empty one, at the start), the end of the string closes the last one,
      so the empty string splits into one empty fragment\<close>
  "split_runs P cur [] = [cur]"
| "split_runs P cur (c # cs) =
     (if P c then cur # split_runs P [] (dropWhile P cs)
      else split_runs P (cur @ [c]) cs)"
  by pat_completeness auto
termination
  by (relation "measure (\<lambda>(P, cur, s). length s)")
     (auto simp: less_Suc_eq_le length_dropWhile_le)

definition trim :: "jsstring \<Rightarrow> jsstring" where
  \<comment> \<open>\<open>s.trim()\<close>: the whitespace at both ends goes\<close>
  "trim s = rev (dropWhile isWhiteSpace (rev (dropWhile isWhiteSpace s)))"

definition toLowerCase_ascii :: "jsstring \<Rightarrow> jsstring" where
  \<comment> \<open>\<open>String.prototype.toLowerCase\<close> on strings of ASCII code units; the functions below take
      the case mapping as a parameter, and the examples run them with this one\<close>
  "toLowerCase_ascii s = map (\<lambda>c. if 0x41 \<le> c \<and> c \<le> 0x5A then c + 0x20 else c) s"


section \<open>The text normalizer\<close>

text \<open>
  \<open>String.prototype.toLowerCase\<close> is the platform's Unicode case mapping, which is not
  part of the repository: \<open>preprocessText\<close> and its callers take it as the parameter
  \<open>toLowerCase\<close>.
\<close>

record PreprocessOptions =
  lowercase :: bool
  removePunctuation :: bool
  removeExtraSpaces :: bool

definition DEFAULT_PREPROCESS_OPTIONS :: PreprocessOptions where
  "DEFAULT_PREPROCESS_OPTIONS =
     \<lparr>lowercase = True, removePunctuation = True, removeExtraSpaces = True\<rparr>"

definition preprocessText :: "(jsstring \<Rightarrow> jsstring) \<Rightarrow> jsstring \<Rightarrow> PreprocessOptions \<Rightarrow> jsstring" where
  "preprocessText toLowerCase text options =
     (let processed = text;
          processed = (if lowercase options then toLowerCase processed else processed);
          processed = (if removePunctuation options
                       then replace_class isPunctuation [0x20] processed else processed);
          processed = (if removeExtraSpaces options
                       then trim (replace_runs isWhiteSpace [0x20] processed) else processed)
      in processed)"

definition words_of :: "jsstring \<Rightarrow> jsstring list" where
  \<comment> \<open>lines 77 and 78: \<open>processed.split(/\s+/).filter((word) => word.length > 0)\<close>\<close>
  "words_of processed = filter (\<lambda>word. length word > 0) (split_runs isWhiteSpace [] processed)"

definition tokenize_inputs ::
  "(jsstring \<Rightarrow> jsstring) \<Rightarrow> jsstring \<Rightarrow> jsstring \<Rightarrow> PreprocessOptions option
     \<Rightarrow> jsstring list \<times> jsstring list" where
  \<comment> \<open>lines 68 to 78 of \<open>calculateWER\<close>: the two token sequences handed to the aligner
      (the parameters \<open>reference\<close> and \<open>prediction\<close> are \<open>referenceText\<close> and
      \<open>predictionText\<close> here, the short names being fields of \<open>AlignmentResult\<close>)\<close>
  "tokenize_inputs toLowerCase referenceText predictionText preprocessOptions =
     (let processedRef = referenceText;
          processedPred = predictionText;
          (processedRef, processedPred) =
             (case preprocessOptions of
                Some options \<Rightarrow> (preprocessText toLowerCase referenceText options,
                                 preprocessText toLowerCase predictionText options)
              | None \<Rightarrow> (processedRef, processedPred));
          refWords = words_of processedRef;
          predWords = words_of processedPred
      in (refWords, predWords))"

function whitespace_tokens :: "jsstring \<Rightarrow> jsstring list" where
  \<comment> \<open>the tokens in the specification's words, "split on whitespace runs with empty
      fragments discarded": skip the whitespace, take the code units up to the next
      whitespace as one token, go on behind them\<close>
  "whitespace_tokens s =
     (case dropWhile isWhiteSpace s of
        [] \<Rightarrow> []
      | c # cs \<Rightarrow> (c # takeWhile (\<lambda>d. \<not> isWhiteSpace d) cs)
                  # whitespace_tokens (dropWhile (\<lambda>d. \<not> isWhiteSpace d) cs))"
  by pat_completeness auto
termination
proof (relation "measure length")
  show "wf (measure length)" by simp
next
  fix s :: jsstring and c cs
  assume a: "dropWhile isWhiteSpace s = c # cs"
  have "length (dropWhile (\<lambda>d. \<not> isWhiteSpace d) cs) \<le> length cs"
    by (rule length_dropWhile_le)
  also have "length cs < length (dropWhile isWhiteSpace s)"
    by (simp add: a)
  also have "\<dots> \<le> length s"
    by (rule length_dropWhile_le)
  finally show "(dropWhile (\<lambda>d. \<not> isWhiteSpace d) cs, s) \<in> measure length"
    by simp
qed

declare whitespace_tokens.simps [simp del]


section \<open>The aligner\<close>

datatype AlignmentType = Correct | Substitution | Insertion | Deletion

record AlignmentResult =
  reference :: jsstring
  prediction :: jsstring
  type :: AlignmentType
  referencePosition :: "int option"
  predictionPosition :: "int option"

record ErrorDetail =
  errorType :: AlignmentType
  referenceWord :: "jsstring option"
  predictionWord :: "jsstring option"
  errorReferencePosition :: "int option"
  errorPredictionPosition :: "int option"

type_synonym CostMatrix = "nat list list"

definition set_cell :: "CostMatrix \<Rightarrow> nat \<Rightarrow> nat \<Rightarrow> nat \<Rightarrow> CostMatrix" where
  \<comment> \<open>\<open>dp[i][j] = v\<close>; every write of the aligner is inside the table\<close>
  "set_cell dp i j v = dp[i := (dp ! i)[j := v]]"

definition fill_cell :: "jsstring list \<Rightarrow> jsstring list \<Rightarrow> nat \<Rightarrow> nat \<Rightarrow> CostMatrix \<Rightarrow> CostMatrix" where
  \<comment> \<open>lines 140 to 150, the body of the inner loop, for \<open>1 \<le> i \<le> m\<close> and \<open>1 \<le> j \<le> n\<close>\<close>
  "fill_cell ref pred i j dp =
     (if ref ! (i - 1) = pred ! (j - 1) then set_cell dp i j (dp ! (i - 1) ! (j - 1))
      else (let substitutionCost = dp ! (i - 1) ! (j - 1) + 1;
                deletionCost = dp ! (i - 1) ! j + 1;
                insertionCost = dp ! i ! (j - 1) + 1
            in set_cell dp i j (min substitutionCost (min deletionCost insertionCost))))"

definition cost_matrix :: "jsstring list \<Rightarrow> jsstring list \<Rightarrow> CostMatrix" where
  \<comment> \<open>lines 125 to 152 of \<open>alignWordsWithPositions\<close>\<close>
  "cost_matrix ref pred =
     (let m = length ref;
          n = length pred;
          dp = replicate (m + 1) (replicate (n + 1) 0);
          dp = fold (\<lambda>i dp. set_cell dp i 0 i) [0..<m + 1] dp;
          dp = fold (\<lambda>j dp. set_cell dp 0 j j) [0..<n + 1] dp;
          dp = fold (\<lambda>i dp. fold (\<lambda>j dp. fill_cell ref pred i j dp) [1..<n + 1] dp) [1..<m + 1] dp
      in dp)"

text \<open>
  The backtracking loop of lines 162 to 232, from any state of its variables, returning
  their values when the loop is left. It is left either by its condition, at \<open>i = 0\<close> and
  \<open>j = 0\<close>, or by the \<open>break\<close> of the last branch, where \<open>i > 0\<close> or \<open>j > 0\<close> still
  holds. \<open>unshift\<close> is \<open>#\<close>. The position counters start at \<open>m - 1\<close> and \<open>n - 1\<close>
  and end below zero, so they are integers.
\<close>

type_synonym BacktrackState =
  "nat \<times> nat \<times> int \<times> int \<times> AlignmentResult list \<times> ErrorDetail list"

function backtrack ::
  "CostMatrix \<Rightarrow> jsstring list \<Rightarrow> jsstring list \<Rightarrow> nat \<Rightarrow> nat \<Rightarrow> int \<Rightarrow> int
     \<Rightarrow> AlignmentResult list \<Rightarrow> ErrorDetail list \<Rightarrow> BacktrackState" where
  "backtrack dp ref pred i j refPos predPos alignment detailedErrors =
     (if i > 0 \<or> j > 0 then
        if i > 0 \<and> j > 0 \<and> ref ! (i - 1) = pred ! (j - 1) then
          backtrack dp ref pred (i - 1) (j - 1) (refPos - 1) (predPos - 1)
            (\<lparr>reference = ref ! (i - 1), prediction = pred ! (j - 1), type = Correct,
              referencePosition = Some refPos, predictionPosition = Some predPos\<rparr> # alignment)
            detailedErrors
        else if i > 0 \<and> j > 0 \<and> dp ! i ! j = dp ! (i - 1) ! (j - 1) + 1 then
          backtrack dp ref pred (i - 1) (j - 1) (refPos - 1) (predPos - 1)
            (\<lparr>reference = ref ! (i - 1), prediction = pred ! (j - 1), type = Substitution,
              referencePosition = Some refPos, predictionPosition = Some predPos\<rparr> # alignment)
            (\<lparr>errorType = Substitution, referenceWord = Some (ref ! (i - 1)),
              predictionWord = Some (pred ! (j - 1)),
              errorReferencePosition = Some refPos, errorPredictionPosition = Some predPos\<rparr>
               # detailedErrors)
        else if i > 0 \<and> dp ! i ! j = dp ! (i - 1) ! j + 1 then
          backtrack dp ref pred (i - 1) j (refPos - 1) predPos
            (\<lparr>reference = ref ! (i - 1), prediction = [], type = Deletion,
              referencePosition = Some refPos, predictionPosition = None\<rparr> # alignment)
            (\<lparr>errorType = Deletion, referenceWord = Some (ref ! (i - 1)),
              predictionWord = None,
              errorReferencePosition = Some refPos, errorPredictionPosition = None\<rparr>
               # detailedErrors)
        else if j > 0 \<and> dp ! i ! j = dp ! i ! (j - 1) + 1 then
          backtrack dp ref pred i (j - 1) refPos (predPos - 1)
            (\<lparr>reference = [], prediction = pred ! (j - 1), type = Insertion,
              referencePosition = None, predictionPosition = Some predPos\<rparr> # alignment)
            (\<lparr>errorType = Insertion, referenceWord = None,
              predictionWord = Some (pred ! (j - 1)),
              errorReferencePosition = None, errorPredictionPosition = Some predPos\<rparr>
               # detailedErrors)
        else (i, j, refPos, predPos, alignment, detailedErrors)
      else (i, j, refPos, predPos, alignment, detailedErrors))"
  by pat_completeness auto
termination
  by (relation "measure (\<lambda>(dp, ref, pred, i, j, rest). i + j)") auto

declare backtrack.simps [simp del]

definition alignWordsWithPositions ::
  "jsstring list \<Rightarrow> jsstring list \<Rightarrow> AlignmentResult list \<times> ErrorDetail list" where
  "alignWordsWithPositions ref pred =
     (let m = length ref;
          n = length pred;
          dp = cost_matrix ref pred;
          (i, j, refPos, predPos, alignment, detailedErrors) =
             backtrack dp ref pred m n (int m - 1) (int n - 1) [] []
      in (alignment, detailedErrors))"


section \<open>The metrics report\<close>

record WERResult =
  wer :: rat
  substitutions :: nat
  insertions :: nat
  deletions :: nat
  totalWords :: nat
  substitutionRate :: rat
  insertionRate :: rat
  deletionRate :: rat
  alignment :: "AlignmentResult list"
  detailedErrors :: "ErrorDetail list"

definition tally :: "AlignmentResult \<Rightarrow> nat \<times> nat \<times> nat \<Rightarrow> nat \<times> nat \<times> nat" where
  \<comment> \<open>lines 87 to 97, the \<open>switch\<close> on one entry, over the three counters\<close>
  "tally item = (\<lambda>(substitutions, insertions, deletions).
     (case type item of
        Substitution \<Rightarrow> (substitutions + 1, insertions, deletions)
      | Insertion \<Rightarrow> (substitutions, insertions + 1, deletions)
      | Deletion \<Rightarrow> (substitutions, insertions, deletions + 1)
      | Correct \<Rightarrow> (substitutions, insertions, deletions)))"

definition report_of_words :: "jsstring list \<Rightarrow> jsstring list \<Rightarrow> WERResult" where
  \<comment> \<open>lines 80 to 115 of \<open>calculateWER\<close>; a quotient of two counts is the exact rational\<close>
  "report_of_words refWords predWords =
     (let (alignment, detailedErrors) = alignWordsWithPositions refWords predWords;
          (substitutions, insertions, deletions) = fold tally alignment (0, 0, 0);
          totalWords = length refWords;
          totalErrors = substitutions + insertions + deletions;
          wer = (if totalWords > 0 then of_nat totalErrors / of_nat totalWords else 0)
      in \<lparr>wer = wer,
          substitutions = substitutions,
          insertions = insertions,
          deletions = deletions,
          totalWords = totalWords,
          substitutionRate = (if totalWords > 0 then of_nat substitutions / of_nat totalWords else 0),
          insertionRate = (if totalWords > 0 then of_nat insertions / of_nat totalWords else 0),
          deletionRate = (if totalWords > 0 then of_nat deletions / of_nat totalWords else 0),
          alignment = alignment,
          detailedErrors = detailedErrors\<rparr>)"

definition calculateWER ::
  "(jsstring \<Rightarrow> jsstring) \<Rightarrow> jsstring \<Rightarrow> jsstring \<Rightarrow> PreprocessOptions option \<Rightarrow> WERResult" where
  "calculateWER toLowerCase referenceText predictionText preprocessOptions =
     (let (refWords, predWords) = tokenize_inputs toLowerCase referenceText predictionText preprocessOptions
      in report_of_words refWords predWords)"

definition calculateWERWithDefaults ::
  "(jsstring \<Rightarrow> jsstring) \<Rightarrow> jsstring \<Rightarrow> jsstring \<Rightarrow> WERResult" where
  "calculateWERWithDefaults toLowerCase referenceText predictionText =
     calculateWER toLowerCase referenceText predictionText (Some DEFAULT_PREPROCESS_OPTIONS)"

section \<open>The batch page\<close>

text \<open>
  \<open>calculateResults\<close> of the page component reads the component's variables \<open>data\<close> and
  \<open>preprocessOptions\<close> and assigns \<open>results\<close>, \<open>overallStats\<close> and \<open>showResults\<close>:
  the variables are a record, passed in and returned.
\<close>

record DataRow =
  rowReference :: jsstring
  rowPrediction :: jsstring

record IndexedResult = WERResult +
  index :: nat

record OverallStats =
  overallWer :: rat
  overallSubstitutionRate :: rat
  overallInsertionRate :: rat
  overallDeletionRate :: rat
  totalSamples :: nat

record PageState =
  data :: "DataRow list"
  results :: "IndexedResult list"
  overallStats :: OverallStats
  preprocessOptions :: PreprocessOptions
  showResults :: bool

definition overall_of :: "IndexedResult list \<Rightarrow> OverallStats" where
  \<comment> \<open>lines 69 to 80 of \<open>calculateResults\<close>; \<open>reduce\<close> runs from the left, from 0\<close>
  "overall_of rs =
     (let totalWords = fold (\<lambda>r sum. sum + totalWords r) rs 0;
          totalSubs = fold (\<lambda>r sum. sum + substitutions r) rs 0;
          totalIns = fold (\<lambda>r sum. sum + insertions r) rs 0;
          totalDel = fold (\<lambda>r sum. sum + deletions r) rs 0
      in \<lparr>overallWer = (if totalWords > 0
                         then of_nat (totalSubs + totalIns + totalDel) / of_nat totalWords else 0),
          overallSubstitutionRate = (if totalWords > 0 then of_nat totalSubs / of_nat totalWords else 0),
          overallInsertionRate = (if totalWords > 0 then of_nat totalIns / of_nat totalWords else 0),
          overallDeletionRate = (if totalWords > 0 then of_nat totalDel / of_nat totalWords else 0),
          totalSamples = length rs\<rparr>)"

definition calculateResults :: "(jsstring \<Rightarrow> jsstring) \<Rightarrow> PageState \<Rightarrow> PageState" where
  "calculateResults toLowerCase st =
     (let rs = map (\<lambda>(index, row).
                     WERResult.extend
                       (calculateWER toLowerCase (rowReference row) (rowPrediction row)
                          (Some (preprocessOptions st)))
                       (IndexedResult.fields index))
                (enumerate 0 (data st))
      in st\<lparr>results := rs, overallStats := overall_of rs, showResults := True\<rparr>)"

definition two_sample_page :: PageState where
  \<comment> \<open>a page holding two samples, before \<open>calculateResults\<close> runs, with the page's
      initial options\<close>
  "two_sample_page =
     \<lparr>data = [\<lparr>rowReference = js ''a b c d'', rowPrediction = js ''a b c x''\<rparr>,
              \<lparr>rowReference = js ''a b c d e f'', rowPrediction = js ''a x c e f''\<rparr>],
      results = [],
      overallStats = \<lparr>overallWer = 0, overallSubstitutionRate = 0, overallInsertionRate = 0,
                      overallDeletionRate = 0, totalSamples = 0\<rparr>,
      preprocessOptions = \<lparr>lowercase = False, removePunctuation = False, removeExtraSpaces = True\<rparr>,
      showResults = False\<rparr>"


section \<open>The recurrence of the cost table and the invariants of its loops\<close>

fun cell :: "jsstring list \<Rightarrow> jsstring list \<Rightarrow> nat \<Rightarrow> nat \<Rightarrow> nat" where
  \<comment> \<open>the recurrence of the specification (section 4.2, step 1, with the borders of section
      3), which is the case distinction of lines 134 to 150 read as a function of the
      indices; \<open>cost_matrix_cell\<close> below proves that the loops store it at \<open>dp[i][j]\<close>\<close>
  "cell ref pred 0 j = j"
| "cell ref pred (Suc i) 0 = Suc i"
| "cell ref pred (Suc i) (Suc j) =
     (if ref ! i = pred ! j then cell ref pred i j
      else min (cell ref pred i j + 1)
               (min (cell ref pred i (Suc j) + 1) (cell ref pred (Suc i) j + 1)))"

definition wf_matrix :: "nat \<Rightarrow> nat \<Rightarrow> CostMatrix \<Rightarrow> bool" where
  \<comment> \<open>the table has \<open>m + 1\<close> rows of \<open>n + 1\<close> cells\<close>
  "wf_matrix m n dp \<longleftrightarrow> length dp = Suc m \<and> (\<forall>a\<le>m. length (dp ! a) = Suc n)"

definition filled ::
  "jsstring list \<Rightarrow> jsstring list \<Rightarrow> nat \<Rightarrow> nat \<Rightarrow> nat \<Rightarrow> nat \<Rightarrow> CostMatrix \<Rightarrow> bool" where
  \<comment> \<open>the state of the table when the nested loop is about to write \<open>dp[i][j]\<close>: the
      borders, the rows above \<open>i\<close> and row \<open>i\<close> left of \<open>j\<close> hold the recurrence\<close>
  "filled ref pred m n i j dp \<longleftrightarrow>
     wf_matrix m n dp \<and>
     (\<forall>a\<le>m. \<forall>b\<le>n. (a = 0 \<or> b = 0 \<or> a < i \<or> (a = i \<and> b < j)) \<longrightarrow> dp ! a ! b = cell ref pred a b)"


section \<open>Views of the alignment trace\<close>

definition referenceSide :: "AlignmentResult list \<Rightarrow> (int \<times> jsstring) list" where
  \<comment> \<open>the entries that have a reference position, in the order of the trace: the position
      and the reference token of each\<close>
  "referenceSide al =
     map (\<lambda>e. (the (referencePosition e), reference e))
         (filter (\<lambda>e. referencePosition e \<noteq> None) al)"

definition predictionSide :: "AlignmentResult list \<Rightarrow> (int \<times> jsstring) list" where
  \<comment> \<open>the same for the entries that have a prediction position\<close>
  "predictionSide al =
     map (\<lambda>e. (the (predictionPosition e), prediction e))
         (filter (\<lambda>e. predictionPosition e \<noteq> None) al)"

definition indexed :: "jsstring list \<Rightarrow> (int \<times> jsstring) list" where
  \<comment> \<open>a token sequence with the zero-based index of each token\<close>
  "indexed ws = zip (map int [0..<length ws]) ws"


section \<open>\<open>calculateWER\<close> on an engine with bounded memory\<close>

text \<open>
  The cost table of lines 129 to 131 has \<open>(m + 1) * (n + 1)\<close> cells, and an engine can
  allocate only so much: beyond that the allocation fails and the call does not return.
  What an engine can allocate is not part of the repository, so it is the parameter
  \<open>canAllocate rows cols\<close>. The strings, token arrays and trace of a call are linear in
  its input and are not counted. A call has one of three outcomes: it returns a report;
  the engine fails in the allocation of the table; or the program itself refuses the
  input before the allocation, with a size-limit error. Between the entry of
  \<open>calculateWER\<close> and line 129 the source compares no length with any limit and has no
  \<open>throw\<close>, so no path of the function below ends in the third outcome.
\<close>

datatype Outcome = Report WERResult | SizeLimitError | AllocationFailed

definition calculateWER_run ::
  "(nat \<Rightarrow> nat \<Rightarrow> bool) \<Rightarrow> (jsstring \<Rightarrow> jsstring) \<Rightarrow> jsstring \<Rightarrow> jsstring
     \<Rightarrow> PreprocessOptions option \<Rightarrow> Outcome" where
  "calculateWER_run canAllocate toLowerCase referenceText predictionText options =
     (let (refWords, predWords) = tokenize_inputs toLowerCase referenceText predictionText options;
          m = length refWords;
          n = length predWords
      in if canAllocate (m + 1) (n + 1) then Report (report_of_words refWords predWords)
         else AllocationFailed)"


section \<open>Properties of the text normalizer\<close>

lemma replace_class_single: "replace_class P [r] s = map (\<lambda>c. if P c then r else c) s"
  by (induction s) (simp_all add: replace_class_def)

lemma preprocessText_punctuation_only:
  "preprocessText lc text \<lparr>lowercase = lo, removePunctuation = True, removeExtraSpaces = False\<rparr> =
     map (\<lambda>c. if isPunctuation c then 0x20 else c) (if lo then lc text else text)"
  by (simp add: preprocessText_def replace_class_single)

lemma js_fox_dog:
  "js ''fox,dog'' = [0x66, 0x6F, 0x78, 0x2C, 0x64, 0x6F, 0x67]"
  "js ''fox dog'' = [0x66, 0x6F, 0x78, 0x20, 0x64, 0x6F, 0x67]"
  by (simp_all add: js_def)

lemma fox_dog_all_switches:
  assumes "lo \<longrightarrow> lc (js ''fox,dog'') = js ''fox,dog''"
  shows "preprocessText lc (js ''fox,dog'')
           \<lparr>lowercase = lo, removePunctuation = True, removeExtraSpaces = sp\<rparr> = js ''fox dog''"
proof -
  have a: "(if lo then lc (js ''fox,dog'') else js ''fox,dog'') = js ''fox,dog''"
    using assms by simp
  have b: "replace_class isPunctuation [0x20] (js ''fox,dog'') = js ''fox dog''"
    by (simp add: replace_class_single js_fox_dog isPunctuation_def isWordChar_def isWhiteSpace_def)
  have c: "trim (replace_runs isWhiteSpace [0x20] (js ''fox dog'')) = js ''fox dog''"
    by (simp add: js_fox_dog trim_def isWhiteSpace_def)
  show ?thesis
    using a b c by (simp add: preprocessText_def Let_def)
qed

section \<open>Properties of the tokenization\<close>

lemma whitespace_tokens_dropWhile:
  "whitespace_tokens (dropWhile isWhiteSpace s) = whitespace_tokens s"
  by (subst whitespace_tokens.simps, subst (2) whitespace_tokens.simps) simp

lemma whitespace_tokens_Nil: "whitespace_tokens [] = []"
  by (subst whitespace_tokens.simps) simp

lemma whitespace_tokens_skip:
  "isWhiteSpace c \<Longrightarrow> whitespace_tokens (c # cs) = whitespace_tokens (dropWhile isWhiteSpace cs)"
  by (subst whitespace_tokens.simps, subst (2) whitespace_tokens.simps) simp

lemma whitespace_tokens_run:
  assumes "cur \<noteq> []" "\<forall>c\<in>set cur. \<not> isWhiteSpace c" "s = [] \<or> isWhiteSpace (hd s)"
  shows "whitespace_tokens (cur @ s) = cur # whitespace_tokens s"
proof -
  obtain a as where cur: "cur = a # as"
    using assms(1) by (cases cur) auto
  have na: "\<not> isWhiteSpace a" and nas: "\<forall>c\<in>set as. \<not> isWhiteSpace c"
    using assms(2) cur by auto
  have t: "takeWhile (\<lambda>d. \<not> isWhiteSpace d) (as @ s) = as"
    using nas assms(3) by (cases s) (simp_all add: takeWhile_append2)
  have d: "dropWhile (\<lambda>d. \<not> isWhiteSpace d) (as @ s) = s"
    using nas assms(3) by (cases s) (simp_all add: dropWhile_append2)
  show ?thesis
    by (subst whitespace_tokens.simps) (simp add: cur na t d)
qed

lemma split_runs_tokens:
  "\<forall>c\<in>set cur. \<not> isWhiteSpace c \<Longrightarrow>
     filter (\<lambda>word. length word > 0) (split_runs isWhiteSpace cur s) = whitespace_tokens (cur @ s)"
proof (induction isWhiteSpace cur s rule: split_runs.induct)
  case (1 cur)
  show ?case
  proof (cases "cur = []")
    case True
    then show ?thesis by (simp add: whitespace_tokens_Nil)
  next
    case False
    then show ?thesis
      using whitespace_tokens_run [of cur "[]"] 1 by (simp add: whitespace_tokens_Nil)
  qed
next
  case (2 cur c cs)
  show ?case
  proof (cases "isWhiteSpace c")
    case True
    have ih: "filter (\<lambda>word. length word > 0) (split_runs isWhiteSpace [] (dropWhile isWhiteSpace cs))
                = whitespace_tokens (dropWhile isWhiteSpace cs)"
      using "2.hyps"(1) [OF True] by simp
    show ?thesis
    proof (cases "cur = []")
      case True
      then show ?thesis using \<open>isWhiteSpace c\<close> ih by (simp add: whitespace_tokens_skip)
    next
      case False
      then show ?thesis
        using whitespace_tokens_run [of cur "c # cs"] "2.prems" \<open>isWhiteSpace c\<close> ih
        by (simp add: whitespace_tokens_skip)
    qed
  next
    case False
    then show ?thesis
      using "2.hyps"(2) [OF False] "2.prems" by simp
  qed
qed

lemma words_of_tokens: "words_of s = whitespace_tokens s"
  using split_runs_tokens [of "[]" s] by (simp add: words_of_def)

lemma filter_not_takeWhile:
  "filter (\<lambda>c. \<not> P c) xs = takeWhile (\<lambda>d. \<not> P d) xs @ filter (\<lambda>c. \<not> P c) (dropWhile (\<lambda>d. \<not> P d) xs)"
  by (induction xs) simp_all

lemma filter_not_dropWhile:
  "filter (\<lambda>c. \<not> P c) (dropWhile P xs) = filter (\<lambda>c. \<not> P c) xs"
  by (induction xs) simp_all

lemma whitespace_tokens_concat:
  "concat (whitespace_tokens s) = filter (\<lambda>c. \<not> isWhiteSpace c) s"
proof (induction s rule: whitespace_tokens.induct)
  case (1 s)
  show ?case
  proof (cases "dropWhile isWhiteSpace s")
    case Nil
    have "filter (\<lambda>c. \<not> isWhiteSpace c) (dropWhile isWhiteSpace s) = []"
      by (simp only: Nil filter.simps)
    then have "filter (\<lambda>c. \<not> isWhiteSpace c) s = []"
      by (simp only: filter_not_dropWhile)
    moreover have "whitespace_tokens s = []"
      by (subst whitespace_tokens.simps) (simp add: Nil)
    ultimately show ?thesis by simp
  next
    case (Cons c cs)
    have nc: "\<not> isWhiteSpace c"
      using Cons hd_dropWhile [of isWhiteSpace s] by (metis list.distinct(1) list.sel(1))
    have "filter (\<lambda>c. \<not> isWhiteSpace c) s = filter (\<lambda>c. \<not> isWhiteSpace c) (c # cs)"
      using filter_not_dropWhile [of isWhiteSpace s] by (simp only: Cons)
    also have "\<dots> = c # filter (\<lambda>c. \<not> isWhiteSpace c) cs"
      using nc by simp
    also have "filter (\<lambda>c. \<not> isWhiteSpace c) cs =
        takeWhile (\<lambda>d. \<not> isWhiteSpace d) cs
          @ filter (\<lambda>c. \<not> isWhiteSpace c) (dropWhile (\<lambda>d. \<not> isWhiteSpace d) cs)"
      by (rule filter_not_takeWhile)
    finally have f: "filter (\<lambda>c. \<not> isWhiteSpace c) s =
        c # takeWhile (\<lambda>d. \<not> isWhiteSpace d) cs
          @ filter (\<lambda>c. \<not> isWhiteSpace c) (dropWhile (\<lambda>d. \<not> isWhiteSpace d) cs)" .
    have w: "whitespace_tokens s =
        (c # takeWhile (\<lambda>d. \<not> isWhiteSpace d) cs)
          # whitespace_tokens (dropWhile (\<lambda>d. \<not> isWhiteSpace d) cs)"
      by (subst whitespace_tokens.simps) (simp add: Cons)
    show ?thesis
      unfolding w f using "1.IH" [OF Cons] by simp
  qed
qed

text \<open>
  Claim C7. When the options record is absent, and likewise when all three switches are
  off, the token sequences handed to the aligner are the original texts cut at their runs
  of whitespace, without the empty fragments, and nothing else is changed: joined
  together, the tokens are the text without its whitespace.
\<close>

theorem tokens_verbatim_without_options:
  "tokenize_inputs lc r p None = (whitespace_tokens r, whitespace_tokens p)
   \<and> tokenize_inputs lc r p
        (Some \<lparr>lowercase = False, removePunctuation = False, removeExtraSpaces = False\<rparr>)
       = (whitespace_tokens r, whitespace_tokens p)
   \<and> concat (fst (tokenize_inputs lc r p None)) = filter (\<lambda>c. \<not> isWhiteSpace c) r
   \<and> concat (snd (tokenize_inputs lc r p None)) = filter (\<lambda>c. \<not> isWhiteSpace c) p"
  by (simp add: tokenize_inputs_def preprocessText_def words_of_tokens whitespace_tokens_concat)

theorem tokens_verbatim_without_options_witness:
  "tokenize_inputs toLowerCase_ascii (js '' Hello,  World! '') (js ''hello world'') None
     = ([js ''Hello,'', js ''World!''], [js ''hello'', js ''world''])
   \<and> tokenize_inputs toLowerCase_ascii (js '' Hello,  World! '') (js ''hello world'')
        (Some \<lparr>lowercase = False, removePunctuation = False, removeExtraSpaces = False\<rparr>)
     = ([js ''Hello,'', js ''World!''], [js ''hello'', js ''world''])"
proof -
  have a: "whitespace_tokens (js '' Hello,  World! '') = [js ''Hello,'', js ''World!'']"
    by code_simp
  have b: "whitespace_tokens (js ''hello world'') = [js ''hello'', js ''world'']"
    by code_simp
  show ?thesis
    using tokens_verbatim_without_options
            [of toLowerCase_ascii "js '' Hello,  World! ''" "js ''hello world''"] a b
    by simp
qed

section \<open>Punctuation and the tokens\<close>

lemma whitespace_tokens_all_space:
  assumes "\<forall>c\<in>set ws. isWhiteSpace c"
  shows "whitespace_tokens ws = []"
proof -
  have d: "dropWhile isWhiteSpace ws = []"
    using assms by simp
  show ?thesis
    by (subst whitespace_tokens.simps) (simp add: d)
qed

lemma whitespace_tokens_replace_runs:
  assumes "\<forall>c\<in>set cur. \<not> isWhiteSpace c"
  shows "whitespace_tokens (cur @ replace_runs isWhiteSpace [0x20] s) = whitespace_tokens (cur @ s)"
  using assms
proof (induction "length s" arbitrary: s cur rule: less_induct)
  case less
  show ?case
  proof (cases s)
    case Nil
    then show ?thesis by simp
  next
    case (Cons c cs)
    show ?thesis
    proof (cases "isWhiteSpace c")
      case True
      have sp: "isWhiteSpace 0x20"
        by (simp add: isWhiteSpace_def)
      have "length (dropWhile isWhiteSpace cs) < length s"
        using Cons length_dropWhile_le [of isWhiteSpace cs] by simp
      then have ih: "whitespace_tokens (replace_runs isWhiteSpace [0x20] (dropWhile isWhiteSpace cs))
                       = whitespace_tokens (dropWhile isWhiteSpace cs)"
        using less.hyps [of "dropWhile isWhiteSpace cs" "[]"] by simp
      have l: "whitespace_tokens (0x20 # replace_runs isWhiteSpace [0x20] (dropWhile isWhiteSpace cs))
                 = whitespace_tokens (dropWhile isWhiteSpace cs)"
        using ih by (simp add: whitespace_tokens_skip [OF sp] whitespace_tokens_dropWhile)
      have r: "whitespace_tokens (c # cs) = whitespace_tokens (dropWhile isWhiteSpace cs)"
        by (rule whitespace_tokens_skip [OF True])
      show ?thesis
      proof (cases "cur = []")
        case True
        then show ?thesis using \<open>isWhiteSpace c\<close> l r Cons by simp
      next
        case False
        have "whitespace_tokens (cur @ 0x20 # replace_runs isWhiteSpace [0x20] (dropWhile isWhiteSpace cs))
                = cur # whitespace_tokens (0x20 # replace_runs isWhiteSpace [0x20] (dropWhile isWhiteSpace cs))"
          using False less.prems sp by (intro whitespace_tokens_run) simp_all
        moreover have "whitespace_tokens (cur @ c # cs) = cur # whitespace_tokens (c # cs)"
          using False less.prems True by (intro whitespace_tokens_run) simp_all
        ultimately show ?thesis
          using \<open>isWhiteSpace c\<close> l r Cons by simp
      qed
    next
      case False
      have "whitespace_tokens ((cur @ [c]) @ replace_runs isWhiteSpace [0x20] cs)
              = whitespace_tokens ((cur @ [c]) @ cs)"
        using less.hyps [of cs "cur @ [c]"] less.prems False Cons by simp
      then show ?thesis
        using False Cons by simp
    qed
  qed
qed

lemma takeWhile_dropWhile_trailing:
  assumes "\<forall>c\<in>set ws. P c"
  shows "takeWhile (\<lambda>d. \<not> P d) (cs @ ws) = takeWhile (\<lambda>d. \<not> P d) cs"
    and "dropWhile (\<lambda>d. \<not> P d) (cs @ ws) = dropWhile (\<lambda>d. \<not> P d) cs @ ws"
proof -
  have t: "takeWhile (\<lambda>d. \<not> P d) ws = []" and d: "dropWhile (\<lambda>d. \<not> P d) ws = ws"
    using assms by (cases ws; simp)+
  show "takeWhile (\<lambda>d. \<not> P d) (cs @ ws) = takeWhile (\<lambda>d. \<not> P d) cs"
    by (induction cs) (simp_all add: t)
  show "dropWhile (\<lambda>d. \<not> P d) (cs @ ws) = dropWhile (\<lambda>d. \<not> P d) cs @ ws"
    by (induction cs) (simp_all add: d)
qed

lemma whitespace_tokens_trailing:
  assumes "\<forall>c\<in>set ws. isWhiteSpace c"
  shows "whitespace_tokens (u @ ws) = whitespace_tokens u"
proof (induction u rule: whitespace_tokens.induct)
  case (1 u)
  show ?case
  proof (cases "dropWhile isWhiteSpace u")
    case Nil
    then have "\<forall>c\<in>set (u @ ws). isWhiteSpace c"
      using assms by (auto simp: dropWhile_eq_Nil_conv)
    then have "whitespace_tokens (u @ ws) = []"
      by (rule whitespace_tokens_all_space)
    moreover have "whitespace_tokens u = []"
      by (subst whitespace_tokens.simps) (simp add: Nil)
    ultimately show ?thesis by simp
  next
    case (Cons c cs)
    obtain x where "x \<in> set u" "\<not> isWhiteSpace x"
      using Cons by (metis dropWhile_eq_Nil_conv list.distinct(1))
    then have "dropWhile isWhiteSpace (u @ ws) = dropWhile isWhiteSpace u @ ws"
      by (rule dropWhile_append1)
    then have d: "dropWhile isWhiteSpace (u @ ws) = c # cs @ ws"
      by (simp add: Cons)
    have "whitespace_tokens (u @ ws) =
            (c # takeWhile (\<lambda>d. \<not> isWhiteSpace d) (cs @ ws))
              # whitespace_tokens (dropWhile (\<lambda>d. \<not> isWhiteSpace d) (cs @ ws))"
      by (subst whitespace_tokens.simps) (simp add: d)
    also have "\<dots> = (c # takeWhile (\<lambda>d. \<not> isWhiteSpace d) cs)
              # whitespace_tokens (dropWhile (\<lambda>d. \<not> isWhiteSpace d) cs @ ws)"
      by (simp only: takeWhile_dropWhile_trailing [OF assms])
    also have "\<dots> = (c # takeWhile (\<lambda>d. \<not> isWhiteSpace d) cs)
              # whitespace_tokens (dropWhile (\<lambda>d. \<not> isWhiteSpace d) cs)"
      by (simp only: "1.IH" [OF Cons])
    also have "\<dots> = whitespace_tokens u"
      by (subst (2) whitespace_tokens.simps) (simp add: Cons)
    finally show ?thesis .
  qed
qed

lemma whitespace_tokens_trim: "whitespace_tokens (trim s) = whitespace_tokens s"
proof -
  let ?t = "dropWhile isWhiteSpace s"
  have "?t = rev (dropWhile isWhiteSpace (rev ?t)) @ rev (takeWhile isWhiteSpace (rev ?t))"
    by (metis rev_append rev_rev_ident takeWhile_dropWhile_id)
  moreover have "\<forall>c\<in>set (rev (takeWhile isWhiteSpace (rev ?t))). isWhiteSpace c"
    by (auto dest: set_takeWhileD)
  ultimately have "whitespace_tokens ?t = whitespace_tokens (rev (dropWhile isWhiteSpace (rev ?t)))"
    using whitespace_tokens_trailing by metis
  then show ?thesis
    by (simp add: trim_def whitespace_tokens_dropWhile)
qed

lemma words_of_collapse:
  "words_of (trim (replace_runs isWhiteSpace [0x20] s)) = words_of s"
  using whitespace_tokens_replace_runs [of "[]" s]
  by (simp add: words_of_tokens whitespace_tokens_trim)

text \<open>
  Claim C6. With \<open>removePunctuation\<close> enabled, the normalizer replaces every character
  (a UTF-16 code unit, as the regular expression has no \<open>u\<close> flag) that is neither a
  word character \<open>[A-Za-z0-9_]\<close>, nor whitespace, nor in U+00C0 to U+024F or U+1E00 to
  U+1EFF, with exactly one space, and keeps every other character: the text after the
  optional lowercasing is mapped position by position, so nothing is deleted and the
  length is kept. When \<open>removeExtraSpaces\<close> then collapses the whitespace, the tokens are
  still those of the text with its punctuation turned into spaces, so no two words are
  merged. In particular \<open>"fox,dog"\<close> becomes \<open>"fox dog"\<close>, whatever the other two
  switches are (lowercasing leaves \<open>"fox,dog"\<close> as it is).
\<close>

theorem preprocessText_replaces_punctuation:
  "preprocessText lc text \<lparr>lowercase = lo, removePunctuation = True, removeExtraSpaces = False\<rparr> =
     map (\<lambda>c. if isWordChar c \<or> isWhiteSpace c \<or> (0xC0 \<le> c \<and> c \<le> 0x24F) \<or> (0x1E00 \<le> c \<and> c \<le> 0x1EFF)
              then c else 0x20)
         (if lo then lc text else text)
   \<and> length (preprocessText lc text \<lparr>lowercase = lo, removePunctuation = True, removeExtraSpaces = False\<rparr>)
       = length (if lo then lc text else text)
   \<and> words_of (preprocessText lc text \<lparr>lowercase = lo, removePunctuation = True, removeExtraSpaces = sp\<rparr>)
       = words_of (map (\<lambda>c. if isWordChar c \<or> isWhiteSpace c \<or> (0xC0 \<le> c \<and> c \<le> 0x24F)
                                  \<or> (0x1E00 \<le> c \<and> c \<le> 0x1EFF)
                               then c else 0x20)
                       (if lo then lc text else text))
   \<and> ((lo \<longrightarrow> lc (js ''fox,dog'') = js ''fox,dog'') \<longrightarrow>
        preprocessText lc (js ''fox,dog'')
          \<lparr>lowercase = lo, removePunctuation = True, removeExtraSpaces = sp\<rparr> = js ''fox dog'')"
proof (intro conjI impI)
  have m: "map (\<lambda>c. if isPunctuation c then 0x20 else c) s =
           map (\<lambda>c. if isWordChar c \<or> isWhiteSpace c \<or> (0xC0 \<le> c \<and> c \<le> 0x24F) \<or> (0x1E00 \<le> c \<and> c \<le> 0x1EFF)
              then c else 0x20) s" for s
    by (rule map_cong) (simp_all add: isPunctuation_def)
  show "preprocessText lc text \<lparr>lowercase = lo, removePunctuation = True, removeExtraSpaces = False\<rparr> =
     map (\<lambda>c. if isWordChar c \<or> isWhiteSpace c \<or> (0xC0 \<le> c \<and> c \<le> 0x24F) \<or> (0x1E00 \<le> c \<and> c \<le> 0x1EFF)
              then c else 0x20)
         (if lo then lc text else text)"
    unfolding preprocessText_punctuation_only by (rule m)
  show "length (preprocessText lc text \<lparr>lowercase = lo, removePunctuation = True, removeExtraSpaces = False\<rparr>)
       = length (if lo then lc text else text)"
    unfolding preprocessText_punctuation_only by simp
  have "words_of (preprocessText lc text \<lparr>lowercase = lo, removePunctuation = True, removeExtraSpaces = sp\<rparr>)
          = words_of (map (\<lambda>c. if isPunctuation c then 0x20 else c) (if lo then lc text else text))"
    by (cases sp) (simp_all add: preprocessText_def Let_def replace_class_single words_of_collapse)
  then show "words_of (preprocessText lc text \<lparr>lowercase = lo, removePunctuation = True, removeExtraSpaces = sp\<rparr>)
       = words_of (map (\<lambda>c. if isWordChar c \<or> isWhiteSpace c \<or> (0xC0 \<le> c \<and> c \<le> 0x24F)
                                  \<or> (0x1E00 \<le> c \<and> c \<le> 0x1EFF)
                               then c else 0x20)
                       (if lo then lc text else text))"
    by (simp only: m)
next
  assume "lo \<longrightarrow> lc (js ''fox,dog'') = js ''fox,dog''"
  then show "preprocessText lc (js ''fox,dog'')
          \<lparr>lowercase = lo, removePunctuation = True, removeExtraSpaces = sp\<rparr> = js ''fox dog''"
    by (rule fox_dog_all_switches)
qed

theorem preprocessText_replaces_punctuation_witness:
  "preprocessText toLowerCase_ascii (js ''Fox,Dog!'')
      \<lparr>lowercase = True, removePunctuation = True, removeExtraSpaces = False\<rparr> = js ''fox dog ''
   \<and> words_of (preprocessText toLowerCase_ascii (js ''Fox,Dog!'')
        \<lparr>lowercase = True, removePunctuation = True, removeExtraSpaces = True\<rparr>)
      = [js ''fox'', js ''dog'']
   \<and> toLowerCase_ascii (js ''fox,dog'') = js ''fox,dog''
   \<and> preprocessText toLowerCase_ascii (js ''fox,dog'')
        \<lparr>lowercase = True, removePunctuation = True, removeExtraSpaces = True\<rparr> = js ''fox dog''"
proof -
  have h: "toLowerCase_ascii (js ''fox,dog'') = js ''fox,dog''"
    by (simp add: toLowerCase_ascii_def js_def)
  have l: "toLowerCase_ascii (js ''Fox,Dog!'') = js ''fox,dog!''"
    by (simp add: toLowerCase_ascii_def js_def)
  have m: "map (\<lambda>c. if isWordChar c \<or> isWhiteSpace c \<or> (0xC0 \<le> c \<and> c \<le> 0x24F) \<or> (0x1E00 \<le> c \<and> c \<le> 0x1EFF)
              then c else 0x20) (js ''fox,dog!'') = js ''fox dog ''"
    by (simp add: js_def isWordChar_def isWhiteSpace_def)
  have w: "words_of (js ''fox dog '') = [js ''fox'', js ''dog'']"
    by code_simp
  show ?thesis
    using preprocessText_replaces_punctuation
            [of toLowerCase_ascii "js ''Fox,Dog!''" True True] h l m w
    by simp
qed


section \<open>Properties of the metrics report\<close>

lemma fold_tally:
  "fold tally al (s, i, d) =
     (s + length (filter (\<lambda>e. type e = Substitution) al),
      i + length (filter (\<lambda>e. type e = Insertion) al),
      d + length (filter (\<lambda>e. type e = Deletion) al))"
  by (induction al arbitrary: s i d) (simp_all add: tally_def split: AlignmentType.splits)

lemma count_not_correct:
  "length (filter (\<lambda>e. type e = Substitution) al) + length (filter (\<lambda>e. type e = Insertion) al)
     + length (filter (\<lambda>e. type e = Deletion) al)
   = length (filter (\<lambda>e. type e \<noteq> Correct) al)"
proof (induction al)
  case Nil
  show ?case by simp
next
  case (Cons e al)
  then show ?case by (cases "type e") simp_all
qed

lemma report_of_words_counts:
  "substitutions (report_of_words rw pw)
     = length (filter (\<lambda>e. type e = Substitution) (alignment (report_of_words rw pw)))"
  "insertions (report_of_words rw pw)
     = length (filter (\<lambda>e. type e = Insertion) (alignment (report_of_words rw pw)))"
  "deletions (report_of_words rw pw)
     = length (filter (\<lambda>e. type e = Deletion) (alignment (report_of_words rw pw)))"
  "totalWords (report_of_words rw pw) = length rw"
  "alignment (report_of_words rw pw) = fst (alignWordsWithPositions rw pw)"
  by (simp_all add: report_of_words_def fold_tally Let_def split: prod.splits)

lemma report_of_words_rates:
  "wer (report_of_words rw pw)
     = (if totalWords (report_of_words rw pw) > 0
        then of_nat (substitutions (report_of_words rw pw) + insertions (report_of_words rw pw)
                      + deletions (report_of_words rw pw))
               / of_nat (totalWords (report_of_words rw pw))
        else 0)"
  "substitutionRate (report_of_words rw pw)
     = (if totalWords (report_of_words rw pw) > 0
        then of_nat (substitutions (report_of_words rw pw)) / of_nat (totalWords (report_of_words rw pw))
        else 0)"
  "insertionRate (report_of_words rw pw)
     = (if totalWords (report_of_words rw pw) > 0
        then of_nat (insertions (report_of_words rw pw)) / of_nat (totalWords (report_of_words rw pw))
        else 0)"
  "deletionRate (report_of_words rw pw)
     = (if totalWords (report_of_words rw pw) > 0
        then of_nat (deletions (report_of_words rw pw)) / of_nat (totalWords (report_of_words rw pw))
        else 0)"
  by (simp_all add: report_of_words_def Let_def split: prod.splits)

lemma calculateWER_report:
  "calculateWER lc r p opts
     = report_of_words (fst (tokenize_inputs lc r p opts)) (snd (tokenize_inputs lc r p opts))"
  by (simp add: calculateWER_def split: prod.splits)

text \<open>
  Claim C1. For every pair of input strings and any preprocessing options (or none), in
  the report of \<open>calculateWER\<close> the sum of substitutions, insertions and deletions is
  the number of alignment entries that are not \<open>correct\<close>, and \<open>wer\<close> is that sum
  divided by \<open>totalWords\<close> when \<open>totalWords > 0\<close>, and 0 when \<open>totalWords = 0\<close>;
  \<open>substitutionRate\<close>, \<open>insertionRate\<close> and \<open>deletionRate\<close> have the same guard.
\<close>

theorem rate_consistency:
  "substitutions (calculateWER lc r p opts) + insertions (calculateWER lc r p opts)
       + deletions (calculateWER lc r p opts)
     = length (filter (\<lambda>e. type e \<noteq> Correct) (alignment (calculateWER lc r p opts)))
   \<and> wer (calculateWER lc r p opts)
     = (if totalWords (calculateWER lc r p opts) > 0
        then of_nat (substitutions (calculateWER lc r p opts) + insertions (calculateWER lc r p opts)
                      + deletions (calculateWER lc r p opts))
               / of_nat (totalWords (calculateWER lc r p opts))
        else 0)
   \<and> substitutionRate (calculateWER lc r p opts)
     = (if totalWords (calculateWER lc r p opts) > 0
        then of_nat (substitutions (calculateWER lc r p opts)) / of_nat (totalWords (calculateWER lc r p opts))
        else 0)
   \<and> insertionRate (calculateWER lc r p opts)
     = (if totalWords (calculateWER lc r p opts) > 0
        then of_nat (insertions (calculateWER lc r p opts)) / of_nat (totalWords (calculateWER lc r p opts))
        else 0)
   \<and> deletionRate (calculateWER lc r p opts)
     = (if totalWords (calculateWER lc r p opts) > 0
        then of_nat (deletions (calculateWER lc r p opts)) / of_nat (totalWords (calculateWER lc r p opts))
        else 0)"
proof -
  let ?rw = "fst (tokenize_inputs lc r p opts)" and ?pw = "snd (tokenize_inputs lc r p opts)"
  have c: "substitutions (report_of_words ?rw ?pw) + insertions (report_of_words ?rw ?pw)
             + deletions (report_of_words ?rw ?pw)
           = length (filter (\<lambda>e. type e \<noteq> Correct) (alignment (report_of_words ?rw ?pw)))"
    by (simp only: report_of_words_counts(1,2,3) count_not_correct)
  show ?thesis
    unfolding calculateWER_report
    using c report_of_words_rates [of ?rw ?pw] by blast
qed

theorem rate_consistency_witness:
  "substitutions (calculateWER toLowerCase_ascii (js ''a b c'') (js ''a x c d'') None) = 1
   \<and> insertions (calculateWER toLowerCase_ascii (js ''a b c'') (js ''a x c d'') None) = 1
   \<and> deletions (calculateWER toLowerCase_ascii (js ''a b c'') (js ''a x c d'') None) = 0
   \<and> length (filter (\<lambda>e. type e \<noteq> Correct)
               (alignment (calculateWER toLowerCase_ascii (js ''a b c'') (js ''a x c d'') None))) = 2
   \<and> totalWords (calculateWER toLowerCase_ascii (js ''a b c'') (js ''a x c d'') None) = 3
   \<and> wer (calculateWER toLowerCase_ascii (js ''a b c'') (js ''a x c d'') None) = 2 / 3
   \<and> totalWords (calculateWER toLowerCase_ascii (js '''') (js ''hello'') None) = 0
   \<and> insertions (calculateWER toLowerCase_ascii (js '''') (js ''hello'') None) = 1
   \<and> wer (calculateWER toLowerCase_ascii (js '''') (js ''hello'') None) = 0"
proof -
  have a1: "substitutions (calculateWER toLowerCase_ascii (js ''a b c'') (js ''a x c d'') None) = 1"
    by code_simp
  have a2: "insertions (calculateWER toLowerCase_ascii (js ''a b c'') (js ''a x c d'') None) = 1"
    by code_simp
  have a3: "deletions (calculateWER toLowerCase_ascii (js ''a b c'') (js ''a x c d'') None) = 0"
    by code_simp
  have a4: "totalWords (calculateWER toLowerCase_ascii (js ''a b c'') (js ''a x c d'') None) = 3"
    by code_simp
  have b1: "totalWords (calculateWER toLowerCase_ascii (js '''') (js ''hello'') None) = 0"
    by code_simp
  have b2: "insertions (calculateWER toLowerCase_ascii (js '''') (js ''hello'') None) = 1"
    by code_simp
  show ?thesis
    using rate_consistency [of toLowerCase_ascii "js ''a b c''" "js ''a x c d''" None]
          rate_consistency [of toLowerCase_ascii "js ''''" "js ''hello''" None]
    unfolding a1 a2 a3 a4 b1 b2 by simp
qed


section \<open>Properties of the batch page\<close>

lemma fold_plus_sum_list:
  "fold (\<lambda>r sum. sum + f r) rs (a::nat) = a + sum_list (map f rs)"
  by (induction rs arbitrary: a) simp_all

lemma overallWer_pooled:
  "overallWer (overall_of rs) =
     (if sum_list (map totalWords rs) > 0
      then of_nat (sum_list (map substitutions rs) + sum_list (map insertions rs)
                    + sum_list (map deletions rs))
             / of_nat (sum_list (map totalWords rs))
      else 0)"
  by (simp add: overall_of_def fold_plus_sum_list Let_def)

lemma results_fields:
  "map totalWords (results (calculateResults lc st))
     = map (\<lambda>row. totalWords (calculateWER lc (rowReference row) (rowPrediction row)
                                  (Some (preprocessOptions st)))) (data st)"
  "map substitutions (results (calculateResults lc st))
     = map (\<lambda>row. substitutions (calculateWER lc (rowReference row) (rowPrediction row)
                                  (Some (preprocessOptions st)))) (data st)"
  "map insertions (results (calculateResults lc st))
     = map (\<lambda>row. insertions (calculateWER lc (rowReference row) (rowPrediction row)
                                  (Some (preprocessOptions st)))) (data st)"
  "map deletions (results (calculateResults lc st))
     = map (\<lambda>row. deletions (calculateWER lc (rowReference row) (rowPrediction row)
                                  (Some (preprocessOptions st)))) (data st)"
proof -
  have "map WERResult.truncate
          (map (\<lambda>(index, row). WERResult.extend
                   (calculateWER lc (rowReference row) (rowPrediction row) (Some (preprocessOptions st)))
                   (IndexedResult.fields index)) (enumerate n xs))
        = map (\<lambda>row. calculateWER lc (rowReference row) (rowPrediction row)
                       (Some (preprocessOptions st))) xs" for n xs
    by (induction xs arbitrary: n) (simp_all add: WERResult.defs)
  then have t: "map WERResult.truncate (results (calculateResults lc st))
       = map (\<lambda>row. calculateWER lc (rowReference row) (rowPrediction row)
                       (Some (preprocessOptions st))) (data st)"
    by (simp add: calculateResults_def Let_def)
  have sel: "totalWords (WERResult.truncate r) = totalWords r"
            "substitutions (WERResult.truncate r) = substitutions r"
            "insertions (WERResult.truncate r) = insertions r"
            "deletions (WERResult.truncate r) = deletions r" for r :: IndexedResult
    by (simp_all add: WERResult.defs)
  have "map totalWords (results (calculateResults lc st))
          = map totalWords (map WERResult.truncate (results (calculateResults lc st)))"
    by (simp add: sel)
  then show "map totalWords (results (calculateResults lc st))
     = map (\<lambda>row. totalWords (calculateWER lc (rowReference row) (rowPrediction row)
                                  (Some (preprocessOptions st)))) (data st)"
    by (simp only: t map_map comp_def)
  have "map substitutions (results (calculateResults lc st))
          = map substitutions (map WERResult.truncate (results (calculateResults lc st)))"
    by (simp add: sel)
  then show "map substitutions (results (calculateResults lc st))
     = map (\<lambda>row. substitutions (calculateWER lc (rowReference row) (rowPrediction row)
                                  (Some (preprocessOptions st)))) (data st)"
    by (simp only: t map_map comp_def)
  have "map insertions (results (calculateResults lc st))
          = map insertions (map WERResult.truncate (results (calculateResults lc st)))"
    by (simp add: sel)
  then show "map insertions (results (calculateResults lc st))
     = map (\<lambda>row. insertions (calculateWER lc (rowReference row) (rowPrediction row)
                                  (Some (preprocessOptions st)))) (data st)"
    by (simp only: t map_map comp_def)
  have "map deletions (results (calculateResults lc st))
          = map deletions (map WERResult.truncate (results (calculateResults lc st)))"
    by (simp add: sel)
  then show "map deletions (results (calculateResults lc st))
     = map (\<lambda>row. deletions (calculateWER lc (rowReference row) (rowPrediction row)
                                  (Some (preprocessOptions st)))) (data st)"
    by (simp only: t map_map comp_def)
qed

lemma overallStats_calculateResults:
  "overallStats (calculateResults lc st) = overall_of (results (calculateResults lc st))"
  by (simp add: calculateResults_def Let_def)

text \<open>
  Claim C9. The overall WER of a batch is the sum of the per-sample substitution,
  insertion and deletion counts divided by the sum of the per-sample \<open>totalWords\<close>, and 0
  when that sum is 0; the per-sample results are the reports of \<open>calculateWER\<close> on the
  rows, in order. It is not the mean of the per-sample rates: two samples with 4 words and
  1 error, and 6 words and 2 errors, give 3/10.
\<close>

theorem batch_wer_pooled:
  "overallWer (overall_of rs) =
     (if sum_list (map totalWords rs) > 0
      then of_nat (sum_list (map substitutions rs) + sum_list (map insertions rs)
                    + sum_list (map deletions rs))
             / of_nat (sum_list (map totalWords rs))
      else 0)
   \<and> overallWer (overallStats (calculateResults lc st)) =
     (if sum_list (map (\<lambda>row. totalWords (calculateWER lc (rowReference row) (rowPrediction row)
                                  (Some (preprocessOptions st)))) (data st)) > 0
      then of_nat (sum_list (map (\<lambda>row. substitutions (calculateWER lc (rowReference row)
                                  (rowPrediction row) (Some (preprocessOptions st)))) (data st))
                   + sum_list (map (\<lambda>row. insertions (calculateWER lc (rowReference row)
                                  (rowPrediction row) (Some (preprocessOptions st)))) (data st))
                   + sum_list (map (\<lambda>row. deletions (calculateWER lc (rowReference row)
                                  (rowPrediction row) (Some (preprocessOptions st)))) (data st)))
             / of_nat (sum_list (map (\<lambda>row. totalWords (calculateWER lc (rowReference row)
                                  (rowPrediction row) (Some (preprocessOptions st)))) (data st)))
      else 0)
   \<and> (totalWords r1 = 4 \<and> substitutions r1 + insertions r1 + deletions r1 = 1
        \<and> totalWords r2 = 6 \<and> substitutions r2 + insertions r2 + deletions r2 = 2
      \<longrightarrow> overallWer (overall_of [r1, r2]) = 3 / 10)"
proof (intro conjI impI)
  show "overallWer (overall_of rs) =
     (if sum_list (map totalWords rs) > 0
      then of_nat (sum_list (map substitutions rs) + sum_list (map insertions rs)
                    + sum_list (map deletions rs))
             / of_nat (sum_list (map totalWords rs))
      else 0)"
    by (rule overallWer_pooled)
next
  show "overallWer (overallStats (calculateResults lc st)) =
     (if sum_list (map (\<lambda>row. totalWords (calculateWER lc (rowReference row) (rowPrediction row)
                                  (Some (preprocessOptions st)))) (data st)) > 0
      then of_nat (sum_list (map (\<lambda>row. substitutions (calculateWER lc (rowReference row)
                                  (rowPrediction row) (Some (preprocessOptions st)))) (data st))
                   + sum_list (map (\<lambda>row. insertions (calculateWER lc (rowReference row)
                                  (rowPrediction row) (Some (preprocessOptions st)))) (data st))
                   + sum_list (map (\<lambda>row. deletions (calculateWER lc (rowReference row)
                                  (rowPrediction row) (Some (preprocessOptions st)))) (data st)))
             / of_nat (sum_list (map (\<lambda>row. totalWords (calculateWER lc (rowReference row)
                                  (rowPrediction row) (Some (preprocessOptions st)))) (data st)))
      else 0)"
    by (simp only: overallStats_calculateResults overallWer_pooled results_fields)
next
  assume a: "totalWords r1 = 4 \<and> substitutions r1 + insertions r1 + deletions r1 = 1
        \<and> totalWords r2 = 6 \<and> substitutions r2 + insertions r2 + deletions r2 = 2"
  have "sum_list (map substitutions [r1, r2]) + sum_list (map insertions [r1, r2])
          + sum_list (map deletions [r1, r2]) = 3"
    using a by simp
  moreover have "sum_list (map totalWords [r1, r2]) = 10"
    using a by simp
  ultimately show "overallWer (overall_of [r1, r2]) = 3 / 10"
    by (simp only: overallWer_pooled) simp
qed

theorem batch_wer_pooled_witness:
  "overallWer (overallStats (calculateResults toLowerCase_ascii two_sample_page)) = 3 / 10
   \<and> map totalWords (results (calculateResults toLowerCase_ascii two_sample_page)) = [4, 6]
   \<and> map wer (map (\<lambda>row. calculateWER toLowerCase_ascii (rowReference row) (rowPrediction row)
                             (Some (preprocessOptions two_sample_page))) (data two_sample_page))
       = [1 / 4, 1 / 3]
   \<and> (3 / 10 :: rat) \<noteq> (1 / 4 + 1 / 3) / 2
   \<and> overallWer (overall_of
        [WERResult.extend
           (calculateWER toLowerCase_ascii (js ''a b c d'') (js ''a b c x'')
              (Some (preprocessOptions two_sample_page)))
           (IndexedResult.fields 0),
         WERResult.extend
           (calculateWER toLowerCase_ascii (js ''a b c d e f'') (js ''a x c e f'')
              (Some (preprocessOptions two_sample_page)))
           (IndexedResult.fields 1)]) = 3 / 10"
proof -
  let ?o = "Some \<lparr>lowercase = False, removePunctuation = False, removeExtraSpaces = True\<rparr>"
  let ?a = "calculateWER toLowerCase_ascii (js ''a b c d'') (js ''a b c x'') ?o"
  let ?b = "calculateWER toLowerCase_ascii (js ''a b c d e f'') (js ''a x c e f'') ?o"
  have a1: "totalWords ?a = 4"
    by code_simp
  have a2: "substitutions ?a = 1"
    by code_simp
  have a3: "insertions ?a = 0"
    by code_simp
  have a4: "deletions ?a = 0"
    by code_simp
  have b1: "totalWords ?b = 6"
    by code_simp
  have b2: "substitutions ?b = 1"
    by code_simp
  have b3: "insertions ?b = 0"
    by code_simp
  have b4: "deletions ?b = 1"
    by code_simp
  have a5: "wer ?a = 1 / 4"
    using report_of_words_rates(1)
            [of "fst (tokenize_inputs toLowerCase_ascii (js ''a b c d'') (js ''a b c x'') ?o)"
                "snd (tokenize_inputs toLowerCase_ascii (js ''a b c d'') (js ''a b c x'') ?o)"]
    unfolding calculateWER_report [symmetric] a1 a2 a3 a4 by simp
  have b5: "wer ?b = 1 / 3"
    using report_of_words_rates(1)
            [of "fst (tokenize_inputs toLowerCase_ascii (js ''a b c d e f'') (js ''a x c e f'') ?o)"
                "snd (tokenize_inputs toLowerCase_ascii (js ''a b c d e f'') (js ''a x c e f'') ?o)"]
    unfolding calculateWER_report [symmetric] b1 b2 b3 b4 by simp
  note a = a1 a2 a3 a4 a5 and b = b1 b2 b3 b4 b5
  have d: "data two_sample_page =
             [\<lparr>rowReference = js ''a b c d'', rowPrediction = js ''a b c x''\<rparr>,
              \<lparr>rowReference = js ''a b c d e f'', rowPrediction = js ''a x c e f''\<rparr>]"
          "preprocessOptions two_sample_page =
             \<lparr>lowercase = False, removePunctuation = False, removeExtraSpaces = True\<rparr>"
    by (simp_all add: two_sample_page_def)
  have h: "totalWords (WERResult.extend ?a (IndexedResult.fields 0)) = 4
           \<and> substitutions (WERResult.extend ?a (IndexedResult.fields 0))
               + insertions (WERResult.extend ?a (IndexedResult.fields 0))
               + deletions (WERResult.extend ?a (IndexedResult.fields 0)) = 1
           \<and> totalWords (WERResult.extend ?b (IndexedResult.fields 1)) = 6
           \<and> substitutions (WERResult.extend ?b (IndexedResult.fields 1))
               + insertions (WERResult.extend ?b (IndexedResult.fields 1))
               + deletions (WERResult.extend ?b (IndexedResult.fields 1)) = 2"
    using a b by (simp add: WERResult.defs)
  have t: "map totalWords (results (calculateResults toLowerCase_ascii two_sample_page)) = [4, 6]"
    by (simp add: results_fields d a b)
  show ?thesis
    using batch_wer_pooled [of "[]" toLowerCase_ascii two_sample_page
            "WERResult.extend ?a (IndexedResult.fields 0)"
            "WERResult.extend ?b (IndexedResult.fields 1)"] h
    by (simp add: t d a b)
qed

section \<open>Properties of the cost table\<close>

lemma wf_matrix_replicate: "wf_matrix m n (replicate (m + 1) (replicate (n + 1) 0))"
proof -
  have "replicate (Suc m) (replicate (Suc n) (0::nat)) ! a = replicate (Suc n) 0" if "a \<le> m" for a
    using that by (intro nth_replicate) simp
  then show ?thesis
    by (simp add: wf_matrix_def del: replicate.simps)
qed

lemma wf_matrix_set_cell:
  assumes "wf_matrix m n dp"
  shows "wf_matrix m n (set_cell dp i j v)"
proof -
  have "length (dp[i := (dp ! i)[j := v]] ! a) = Suc n" if "a \<le> m" for a
  proof (cases "a = i")
    case True
    then show ?thesis using assms that by (simp add: wf_matrix_def)
  next
    case False
    then show ?thesis using assms that by (simp add: wf_matrix_def)
  qed
  then show ?thesis
    using assms by (simp add: wf_matrix_def set_cell_def)
qed

lemma nth_set_cell:
  assumes "wf_matrix m n dp" "i \<le> m" "j \<le> n" "a \<le> m" "b \<le> n"
  shows "set_cell dp i j v ! a ! b = (if a = i \<and> b = j then v else dp ! a ! b)"
  using assms by (auto simp: wf_matrix_def set_cell_def nth_list_update)

lemma first_loop:
  assumes "wf_matrix m n dp" "k \<le> Suc m"
  shows "wf_matrix m n (fold (\<lambda>i dp. set_cell dp i 0 i) [0..<k] dp)
         \<and> (\<forall>a<k. fold (\<lambda>i dp. set_cell dp i 0 i) [0..<k] dp ! a ! 0 = a)"
  using assms(2)
proof (induction k)
  case 0
  show ?case using assms(1) by simp
next
  case (Suc k)
  let ?dp = "fold (\<lambda>i dp. set_cell dp i 0 i) [0..<k] dp"
  have wf: "wf_matrix m n ?dp" and old: "\<forall>a<k. ?dp ! a ! 0 = a"
    using Suc by simp_all
  have step: "fold (\<lambda>i dp. set_cell dp i 0 i) [0..<Suc k] dp = set_cell ?dp k 0 k"
    by simp
  have "\<forall>a<Suc k. set_cell ?dp k 0 k ! a ! 0 = a"
    using Suc.prems old by (simp add: nth_set_cell [OF wf])
  then show ?case
    unfolding step using wf_matrix_set_cell [OF wf] by blast
qed

lemma second_loop:
  assumes "wf_matrix m n dp" "\<forall>a\<le>m. dp ! a ! 0 = a" "k \<le> Suc n"
  shows "wf_matrix m n (fold (\<lambda>j dp. set_cell dp 0 j j) [0..<k] dp)
         \<and> (\<forall>a\<le>m. fold (\<lambda>j dp. set_cell dp 0 j j) [0..<k] dp ! a ! 0 = a)
         \<and> (\<forall>b<k. fold (\<lambda>j dp. set_cell dp 0 j j) [0..<k] dp ! 0 ! b = b)"
  using assms(3)
proof (induction k)
  case 0
  show ?case using assms(1,2) by simp
next
  case (Suc k)
  let ?dp = "fold (\<lambda>j dp. set_cell dp 0 j j) [0..<k] dp"
  have wf: "wf_matrix m n ?dp" and col: "\<forall>a\<le>m. ?dp ! a ! 0 = a" and row: "\<forall>b<k. ?dp ! 0 ! b = b"
    using Suc by simp_all
  have step: "fold (\<lambda>j dp. set_cell dp 0 j j) [0..<Suc k] dp = set_cell ?dp 0 k k"
    by simp
  have c: "\<forall>a\<le>m. set_cell ?dp 0 k k ! a ! 0 = a"
    using Suc.prems col by (simp add: nth_set_cell [OF wf])
  have r: "\<forall>b<Suc k. set_cell ?dp 0 k k ! 0 ! b = b"
    using Suc.prems row by (simp add: nth_set_cell [OF wf])
  show ?case
    unfolding step using wf_matrix_set_cell [OF wf] c r by blast
qed

lemma cell_borders: "cell ref pred i 0 = i" "cell ref pred 0 j = j"
  by (cases i) simp_all

lemma filled_start:
  assumes "wf_matrix m n dp" "\<forall>a\<le>m. dp ! a ! 0 = a" "\<forall>b\<le>n. dp ! 0 ! b = b"
  shows "filled ref pred m n 1 1 dp"
  using assms by (auto simp: filled_def cell_borders)

lemma filled_fill_cell:
  assumes f: "filled ref pred m n i j dp" and i: "1 \<le> i" "i \<le> m" and j: "1 \<le> j" "j \<le> n"
  shows "filled ref pred m n i (Suc j) (fill_cell ref pred i j dp)"
proof -
  obtain i' j' where ij: "i = Suc i'" "j = Suc j'"
    using i(1) j(1) by (cases i; cases j) auto
  have wf: "wf_matrix m n dp"
    using f by (simp add: filled_def)
  have known: "\<And>a b. a \<le> m \<Longrightarrow> b \<le> n \<Longrightarrow> a = 0 \<or> b = 0 \<or> a < i \<or> (a = i \<and> b < j)
                 \<Longrightarrow> dp ! a ! b = cell ref pred a b"
    using f unfolding filled_def by blast
  have d: "dp ! i' ! j' = cell ref pred i' j'"
    using known [of i' j'] i j ij by simp
  have u: "dp ! i' ! j = cell ref pred i' j"
    using known [of i' j] i j ij by simp
  have l: "dp ! i ! j' = cell ref pred i j'"
    using known [of i j'] i j ij by simp
  define v where "v = (if ref ! (i - 1) = pred ! (j - 1) then dp ! (i - 1) ! (j - 1)
                       else min (dp ! (i - 1) ! (j - 1) + 1)
                                (min (dp ! (i - 1) ! j + 1) (dp ! i ! (j - 1) + 1)))"
  have fc: "fill_cell ref pred i j dp = set_cell dp i j v"
    by (simp add: fill_cell_def v_def Let_def)
  have v: "v = cell ref pred i j"
    using d u l by (simp add: v_def ij)
  have "\<forall>a\<le>m. \<forall>b\<le>n. (a = 0 \<or> b = 0 \<or> a < i \<or> (a = i \<and> b < Suc j))
            \<longrightarrow> set_cell dp i j v ! a ! b = cell ref pred a b"
  proof (intro allI impI)
    fix a b
    assume a: "a \<le> m" and b: "b \<le> n" and c: "a = 0 \<or> b = 0 \<or> a < i \<or> (a = i \<and> b < Suc j)"
    show "set_cell dp i j v ! a ! b = cell ref pred a b"
    proof (cases "a = i \<and> b = j")
      case True
      then show ?thesis using v a b by (simp add: nth_set_cell [OF wf i(2) j(2)])
    next
      case False
      then have "a = 0 \<or> b = 0 \<or> a < i \<or> (a = i \<and> b < j)"
        using c by auto
      then have "dp ! a ! b = cell ref pred a b"
        using known [OF a b] by blast
      then show ?thesis using False a b by (auto simp: nth_set_cell [OF wf i(2) j(2)])
    qed
  qed
  then show ?thesis
    unfolding fc filled_def using wf_matrix_set_cell [OF wf] by blast
qed

lemma inner_loop:
  assumes "filled ref pred m n i 1 dp" "1 \<le> i" "i \<le> m" "k \<le> n"
  shows "filled ref pred m n i (Suc k) (fold (\<lambda>j dp. fill_cell ref pred i j dp) [1..<Suc k] dp)"
  using assms(4)
proof (induction k)
  case 0
  show ?case using assms(1) by simp
next
  case (Suc k)
  let ?dp = "fold (\<lambda>j dp. fill_cell ref pred i j dp) [1..<Suc k] dp"
  have ih: "filled ref pred m n i (Suc k) ?dp"
    using Suc by simp
  have step: "fold (\<lambda>j dp. fill_cell ref pred i j dp) [1..<Suc (Suc k)] dp
                = fill_cell ref pred i (Suc k) ?dp"
    by simp
  show ?case
    unfolding step using filled_fill_cell [OF ih assms(2,3)] Suc.prems by simp
qed

lemma filled_next_row:
  assumes "filled ref pred m n i (Suc n) dp"
  shows "filled ref pred m n (Suc i) 1 dp"
proof -
  have "dp ! a ! b = cell ref pred a b"
    if "a \<le> m" "b \<le> n" "a = 0 \<or> b = 0 \<or> a < Suc i \<or> (a = Suc i \<and> b < 1)" for a b
  proof -
    have "a = 0 \<or> b = 0 \<or> a < i \<or> (a = i \<and> b < Suc n)"
      using that(2,3) by auto
    then show ?thesis
      using assms that(1,2) unfolding filled_def by blast
  qed
  then show ?thesis
    using assms unfolding filled_def by blast
qed

lemma outer_loop:
  assumes "filled ref pred m n 1 1 dp" "k \<le> m"
  shows "filled ref pred m n (Suc k) 1
           (fold (\<lambda>i dp. fold (\<lambda>j dp. fill_cell ref pred i j dp) [1..<n + 1] dp) [1..<Suc k] dp)"
  using assms(2)
proof (induction k)
  case 0
  show ?case using assms(1) by simp
next
  case (Suc k)
  let ?dp = "fold (\<lambda>i dp. fold (\<lambda>j dp. fill_cell ref pred i j dp) [1..<n + 1] dp) [1..<Suc k] dp"
  have ih: "filled ref pred m n (Suc k) 1 ?dp"
    using Suc by simp
  have step: "fold (\<lambda>i dp. fold (\<lambda>j dp. fill_cell ref pred i j dp) [1..<n + 1] dp) [1..<Suc (Suc k)] dp
                = fold (\<lambda>j dp. fill_cell ref pred (Suc k) j dp) [1..<Suc n] ?dp"
    by simp
  have "filled ref pred m n (Suc k) (Suc n) (fold (\<lambda>j dp. fill_cell ref pred (Suc k) j dp) [1..<Suc n] ?dp)"
    using inner_loop [OF ih, of n] Suc.prems by simp
  then show ?case
    unfolding step by (rule filled_next_row)
qed

lemma cost_matrix_filled:
  "filled ref pred (length ref) (length pred) (Suc (length ref)) 1 (cost_matrix ref pred)"
proof -
  let ?m = "length ref" and ?n = "length pred"
  let ?dp0 = "replicate (?m + 1) (replicate (?n + 1) (0::nat))"
  let ?dp1 = "fold (\<lambda>i dp. set_cell dp i 0 i) [0..<?m + 1] ?dp0"
  let ?dp2 = "fold (\<lambda>j dp. set_cell dp 0 j j) [0..<?n + 1] ?dp1"
  have l1: "wf_matrix ?m ?n ?dp1 \<and> (\<forall>a<Suc ?m. ?dp1 ! a ! 0 = a)"
    using first_loop [OF wf_matrix_replicate, of "Suc ?m" ?m ?n] by simp
  then have l1': "wf_matrix ?m ?n ?dp1" "\<forall>a\<le>?m. ?dp1 ! a ! 0 = a"
    by (simp_all add: less_Suc_eq_le)
  have l2: "wf_matrix ?m ?n ?dp2 \<and> (\<forall>a\<le>?m. ?dp2 ! a ! 0 = a) \<and> (\<forall>b<Suc ?n. ?dp2 ! 0 ! b = b)"
    using second_loop [OF l1', of "Suc ?n"] by simp
  then have "filled ref pred ?m ?n 1 1 ?dp2"
    by (intro filled_start) (simp_all add: less_Suc_eq_le)
  then have "filled ref pred ?m ?n (Suc ?m) 1
               (fold (\<lambda>i dp. fold (\<lambda>j dp. fill_cell ref pred i j dp) [1..<?n + 1] dp) [1..<Suc ?m] ?dp2)"
    by (rule outer_loop) simp
  then show ?thesis
    by (simp add: cost_matrix_def Let_def)
qed

lemma cost_matrix_cell:
  assumes "i \<le> length ref" "j \<le> length pred"
  shows "cost_matrix ref pred ! i ! j = cell ref pred i j"
  using cost_matrix_filled [of ref pred] assms by (simp add: filled_def)

lemma cell_upper: "cell ref pred i j \<le> max i j"
  by (induction ref pred i j rule: cell.induct) auto

lemma cell_lower: "i - j \<le> cell ref pred i j \<and> j - i \<le> cell ref pred i j"
  by (induction ref pred i j rule: cell.induct) auto

text \<open>
  Claim C4. For token sequences of lengths \<open>m\<close> and \<open>n\<close>, the cost table built by the
  aligner satisfies \<open>|m - n| \<le> dp[m][n] \<le> max(m, n)\<close>, and its borders are
  \<open>dp[i][0] = i\<close> for \<open>i \<le> m\<close> and \<open>dp[0][j] = j\<close> for \<open>j \<le> n\<close>.
\<close>

theorem cost_matrix_bounds:
  "\<bar>int (length ref) - int (length pred)\<bar> \<le> int (cost_matrix ref pred ! length ref ! length pred)
   \<and> cost_matrix ref pred ! length ref ! length pred \<le> max (length ref) (length pred)
   \<and> (\<forall>i\<le>length ref. cost_matrix ref pred ! i ! 0 = i)
   \<and> (\<forall>j\<le>length pred. cost_matrix ref pred ! 0 ! j = j)"
proof -
  have c: "cost_matrix ref pred ! length ref ! length pred = cell ref pred (length ref) (length pred)"
    by (simp add: cost_matrix_cell)
  have "\<bar>int (length ref) - int (length pred)\<bar> \<le> int (cell ref pred (length ref) (length pred))"
    using cell_lower [of "length ref" "length pred" ref pred] by linarith
  moreover have "cell ref pred (length ref) (length pred) \<le> max (length ref) (length pred)"
    by (rule cell_upper)
  ultimately show ?thesis
    unfolding c by (simp add: cost_matrix_cell cell_borders)
qed

theorem cost_matrix_bounds_witness:
  "cost_matrix [js ''a'', js ''b'', js ''c''] [js ''a'', js ''c'']
     = [[0, 1, 2], [1, 0, 1], [2, 1, 1], [3, 2, 1]]
   \<and> \<bar>int 3 - int 2\<bar> \<le> int (cost_matrix [js ''a'', js ''b'', js ''c''] [js ''a'', js ''c''] ! 3 ! 2)
   \<and> cost_matrix [js ''a'', js ''b'', js ''c''] [js ''a'', js ''c''] ! 3 ! 2 \<le> max 3 2
   \<and> (2::nat) \<le> 3 \<and> cost_matrix [js ''a'', js ''b'', js ''c''] [js ''a'', js ''c''] ! 2 ! 0 = 2
   \<and> (1::nat) \<le> 2 \<and> cost_matrix [js ''a'', js ''b'', js ''c''] [js ''a'', js ''c''] ! 0 ! 1 = 1"
proof -
  have e: "cost_matrix [js ''a'', js ''b'', js ''c''] [js ''a'', js ''c'']
             = [[0, 1, 2], [1, 0, 1], [2, 1, 1], [3, 2, 1]]"
    by code_simp
  show ?thesis
    using cost_matrix_bounds [of "[js ''a'', js ''b'', js ''c'']" "[js ''a'', js ''c'']"]
    unfolding e by simp
qed

section \<open>Properties of the backtracking loop\<close>

lemma backtrack_done:
  "backtrack dp ref pred 0 0 rp pp al de = (0, 0, rp, pp, al, de)"
  by (subst backtrack.simps) simp

lemma backtrack_match:
  assumes "i > 0" "j > 0" "ref ! (i - 1) = pred ! (j - 1)"
  shows "backtrack dp ref pred i j rp pp al de =
           backtrack dp ref pred (i - 1) (j - 1) (rp - 1) (pp - 1)
             (\<lparr>reference = ref ! (i - 1), prediction = pred ! (j - 1), type = Correct,
               referencePosition = Some rp, predictionPosition = Some pp\<rparr> # al) de"
  using assms by (subst backtrack.simps) simp

lemma backtrack_substitution:
  assumes "i > 0" "j > 0" "ref ! (i - 1) \<noteq> pred ! (j - 1)"
          "dp ! i ! j = dp ! (i - 1) ! (j - 1) + 1"
  shows "backtrack dp ref pred i j rp pp al de =
           backtrack dp ref pred (i - 1) (j - 1) (rp - 1) (pp - 1)
             (\<lparr>reference = ref ! (i - 1), prediction = pred ! (j - 1), type = Substitution,
               referencePosition = Some rp, predictionPosition = Some pp\<rparr> # al)
             (\<lparr>errorType = Substitution, referenceWord = Some (ref ! (i - 1)),
               predictionWord = Some (pred ! (j - 1)),
               errorReferencePosition = Some rp, errorPredictionPosition = Some pp\<rparr> # de)"
  using assms by (subst backtrack.simps) simp

lemma backtrack_deletion:
  assumes "i > 0" "\<not> (j > 0 \<and> ref ! (i - 1) = pred ! (j - 1))"
          "\<not> (j > 0 \<and> dp ! i ! j = dp ! (i - 1) ! (j - 1) + 1)"
          "dp ! i ! j = dp ! (i - 1) ! j + 1"
  shows "backtrack dp ref pred i j rp pp al de =
           backtrack dp ref pred (i - 1) j (rp - 1) pp
             (\<lparr>reference = ref ! (i - 1), prediction = [], type = Deletion,
               referencePosition = Some rp, predictionPosition = None\<rparr> # al)
             (\<lparr>errorType = Deletion, referenceWord = Some (ref ! (i - 1)),
               predictionWord = None,
               errorReferencePosition = Some rp, errorPredictionPosition = None\<rparr> # de)"
  using assms by (subst backtrack.simps) auto

lemma backtrack_insertion:
  assumes "j > 0" "\<not> (i > 0 \<and> ref ! (i - 1) = pred ! (j - 1))"
          "\<not> (i > 0 \<and> dp ! i ! j = dp ! (i - 1) ! (j - 1) + 1)"
          "\<not> (i > 0 \<and> dp ! i ! j = dp ! (i - 1) ! j + 1)"
          "dp ! i ! j = dp ! i ! (j - 1) + 1"
  shows "backtrack dp ref pred i j rp pp al de =
           backtrack dp ref pred i (j - 1) rp (pp - 1)
             (\<lparr>reference = [], prediction = pred ! (j - 1), type = Insertion,
               referencePosition = None, predictionPosition = Some pp\<rparr> # al)
             (\<lparr>errorType = Insertion, referenceWord = None,
               predictionWord = Some (pred ! (j - 1)),
               errorReferencePosition = None, errorPredictionPosition = Some pp\<rparr> # de)"
  using assms by (subst backtrack.simps) auto

lemma cell_transition:
  assumes "i > 0 \<or> j > 0"
  shows "(i > 0 \<and> j > 0 \<and> ref ! (i - 1) = pred ! (j - 1))
         \<or> (i > 0 \<and> j > 0 \<and> cell ref pred i j = cell ref pred (i - 1) (j - 1) + 1)
         \<or> (i > 0 \<and> cell ref pred i j = cell ref pred (i - 1) j + 1)
         \<or> (j > 0 \<and> cell ref pred i j = cell ref pred i (j - 1) + 1)"
proof (cases i)
  case 0
  then obtain j' where "j = Suc j'"
    using assms by (cases j) auto
  then show ?thesis using 0 by simp
next
  case (Suc i')
  show ?thesis
  proof (cases j)
    case 0
    then show ?thesis using Suc by (simp add: cell_borders)
  next
    case (Suc j')
    show ?thesis
      using \<open>i = Suc i'\<close> Suc by (simp add: min_def)
  qed
qed

lemma cost_matrix_transition:
  assumes "i \<le> length ref" "j \<le> length pred" "i > 0 \<or> j > 0"
  shows "(i > 0 \<and> j > 0 \<and> ref ! (i - 1) = pred ! (j - 1))
         \<or> (i > 0 \<and> j > 0 \<and> cost_matrix ref pred ! i ! j = cost_matrix ref pred ! (i - 1) ! (j - 1) + 1)
         \<or> (i > 0 \<and> cost_matrix ref pred ! i ! j = cost_matrix ref pred ! (i - 1) ! j + 1)
         \<or> (j > 0 \<and> cost_matrix ref pred ! i ! j = cost_matrix ref pred ! i ! (j - 1) + 1)"
proof -
  have "cost_matrix ref pred ! i ! j = cell ref pred i j"
       "cost_matrix ref pred ! (i - 1) ! (j - 1) = cell ref pred (i - 1) (j - 1)"
       "cost_matrix ref pred ! (i - 1) ! j = cell ref pred (i - 1) j"
       "cost_matrix ref pred ! i ! (j - 1) = cell ref pred i (j - 1)"
    using assms(1,2) by (simp_all add: cost_matrix_cell)
  then show ?thesis
    using cell_transition [OF assms(3), of ref pred] by simp
qed

lemma sides_Nil: "referenceSide [] = []" "predictionSide [] = []"
  by (simp_all add: referenceSide_def predictionSide_def)

lemma sides_append:
  "referenceSide (xs @ ys) = referenceSide xs @ referenceSide ys"
  "predictionSide (xs @ ys) = predictionSide xs @ predictionSide ys"
  by (simp_all add: referenceSide_def predictionSide_def)

lemma indexed_take_Suc:
  assumes "i < length ws"
  shows "indexed (take (Suc i) ws) = indexed (take i ws) @ [(int i, ws ! i)]"
  using assms by (simp add: indexed_def take_Suc_conv_app_nth min_def)

lemma backtrack_trace:
  assumes "i \<le> length ref" "j \<le> length pred"
  shows "\<exists>pre dpre.
           backtrack (cost_matrix ref pred) ref pred i j (int i - 1) (int j - 1) al de
             = (0, 0, - 1, - 1, pre @ al, dpre @ de)
           \<and> referenceSide pre = indexed (take i ref)
           \<and> predictionSide pre = indexed (take j pred)"
  using assms
proof (induction "i + j" arbitrary: i j al de rule: less_induct)
  case less
  let ?dp = "cost_matrix ref pred"
  show ?case
  proof (cases "i > 0 \<or> j > 0")
    case False
    then have "backtrack ?dp ref pred i j (int i - 1) (int j - 1) al de = (0, 0, - 1, - 1, [] @ al, [] @ de)"
      by (simp add: backtrack_done)
    moreover have "referenceSide [] = indexed (take i ref)" "predictionSide [] = indexed (take j pred)"
      using False by (simp_all add: sides_Nil indexed_def)
    ultimately show ?thesis by blast
  next
    case True
    note tr = cost_matrix_transition [OF less.prems True]
    have diag: "\<exists>pre dpre.
           backtrack ?dp ref pred (i - 1) (j - 1) (int i - 1 - 1) (int j - 1 - 1) (e # al) de'
             = (0, 0, - 1, - 1, pre @ al, dpre @ de)
           \<and> referenceSide pre = indexed (take i ref)
           \<and> predictionSide pre = indexed (take j pred)"
      if pos: "i > 0" "j > 0"
        and e: "referencePosition e = Some (int i - 1)" "reference e = ref ! (i - 1)"
               "predictionPosition e = Some (int j - 1)" "prediction e = pred ! (j - 1)"
        and de': "\<exists>d. de' = d @ de"
      for e de'
    proof -
      obtain i' j' where ij: "i = Suc i'" "j = Suc j'"
        using pos by (cases i; cases j) auto
      obtain pre dpre where
        b: "backtrack ?dp ref pred i' j' (int i' - 1) (int j' - 1) (e # al) de'
              = (0, 0, - 1, - 1, pre @ e # al, dpre @ de')"
        and r: "referenceSide pre = indexed (take i' ref)"
        and p: "predictionSide pre = indexed (take j' pred)"
        using less.hyps [of i' j' "e # al" de'] less.prems ij by auto
      obtain d where d: "de' = d @ de"
        using de' by blast
      have "backtrack ?dp ref pred (i - 1) (j - 1) (int i - 1 - 1) (int j - 1 - 1) (e # al) de'
              = (0, 0, - 1, - 1, (pre @ [e]) @ al, (dpre @ d) @ de)"
        using b by (simp add: ij d)
      moreover have "referenceSide (pre @ [e]) = indexed (take i ref)"
        using less.prems r e by (simp add: sides_append ij indexed_take_Suc) (simp add: referenceSide_def)
      moreover have "predictionSide (pre @ [e]) = indexed (take j pred)"
        using less.prems p e by (simp add: sides_append ij indexed_take_Suc) (simp add: predictionSide_def)
      ultimately show ?thesis by blast
    qed
    have up: "\<exists>pre dpre.
           backtrack ?dp ref pred (i - 1) j (int i - 1 - 1) (int j - 1) (e # al) de'
             = (0, 0, - 1, - 1, pre @ al, dpre @ de)
           \<and> referenceSide pre = indexed (take i ref)
           \<and> predictionSide pre = indexed (take j pred)"
      if pos: "i > 0"
        and e: "referencePosition e = Some (int i - 1)" "reference e = ref ! (i - 1)"
               "predictionPosition e = None"
        and de': "\<exists>d. de' = d @ de"
      for e de'
    proof -
      obtain i' where ij: "i = Suc i'"
        using pos by (cases i) auto
      obtain pre dpre where
        b: "backtrack ?dp ref pred i' j (int i' - 1) (int j - 1) (e # al) de'
              = (0, 0, - 1, - 1, pre @ e # al, dpre @ de')"
        and r: "referenceSide pre = indexed (take i' ref)"
        and p: "predictionSide pre = indexed (take j pred)"
        using less.hyps [of i' j "e # al" de'] less.prems ij by auto
      obtain d where d: "de' = d @ de"
        using de' by blast
      have "backtrack ?dp ref pred (i - 1) j (int i - 1 - 1) (int j - 1) (e # al) de'
              = (0, 0, - 1, - 1, (pre @ [e]) @ al, (dpre @ d) @ de)"
        using b by (simp add: ij d)
      moreover have "referenceSide (pre @ [e]) = indexed (take i ref)"
        using less.prems r e by (simp add: sides_append ij indexed_take_Suc) (simp add: referenceSide_def)
      moreover have "predictionSide (pre @ [e]) = indexed (take j pred)"
        using less.prems p e by (simp add: sides_append) (simp add: predictionSide_def)
      ultimately show ?thesis by blast
    qed
    have left: "\<exists>pre dpre.
           backtrack ?dp ref pred i (j - 1) (int i - 1) (int j - 1 - 1) (e # al) de'
             = (0, 0, - 1, - 1, pre @ al, dpre @ de)
           \<and> referenceSide pre = indexed (take i ref)
           \<and> predictionSide pre = indexed (take j pred)"
      if pos: "j > 0"
        and e: "predictionPosition e = Some (int j - 1)" "prediction e = pred ! (j - 1)"
               "referencePosition e = None"
        and de': "\<exists>d. de' = d @ de"
      for e de'
    proof -
      obtain j' where ij: "j = Suc j'"
        using pos by (cases j) auto
      obtain pre dpre where
        b: "backtrack ?dp ref pred i j' (int i - 1) (int j' - 1) (e # al) de'
              = (0, 0, - 1, - 1, pre @ e # al, dpre @ de')"
        and r: "referenceSide pre = indexed (take i ref)"
        and p: "predictionSide pre = indexed (take j' pred)"
        using less.hyps [of i j' "e # al" de'] less.prems ij by auto
      obtain d where d: "de' = d @ de"
        using de' by blast
      have "backtrack ?dp ref pred i (j - 1) (int i - 1) (int j - 1 - 1) (e # al) de'
              = (0, 0, - 1, - 1, (pre @ [e]) @ al, (dpre @ d) @ de)"
        using b by (simp add: ij d)
      moreover have "referenceSide (pre @ [e]) = indexed (take i ref)"
        using less.prems r e by (simp add: sides_append) (simp add: referenceSide_def)
      moreover have "predictionSide (pre @ [e]) = indexed (take j pred)"
        using less.prems p e by (simp add: sides_append ij indexed_take_Suc) (simp add: predictionSide_def)
      ultimately show ?thesis by blast
    qed
    show ?thesis
    proof (cases "i > 0 \<and> j > 0 \<and> ref ! (i - 1) = pred ! (j - 1)")
      case True
      then show ?thesis
        by (simp only: backtrack_match [of i j ref pred]) (rule diag; simp)
    next
      case c1: False
      show ?thesis
      proof (cases "i > 0 \<and> j > 0 \<and> ?dp ! i ! j = ?dp ! (i - 1) ! (j - 1) + 1")
        case True
        have "backtrack ?dp ref pred i j (int i - 1) (int j - 1) al de =
                backtrack ?dp ref pred (i - 1) (j - 1) (int i - 1 - 1) (int j - 1 - 1)
                  (\<lparr>reference = ref ! (i - 1), prediction = pred ! (j - 1), type = Substitution,
                    referencePosition = Some (int i - 1), predictionPosition = Some (int j - 1)\<rparr> # al)
                  (\<lparr>errorType = Substitution, referenceWord = Some (ref ! (i - 1)),
                    predictionWord = Some (pred ! (j - 1)),
                    errorReferencePosition = Some (int i - 1),
                    errorPredictionPosition = Some (int j - 1)\<rparr> # de)"
          using True c1 by (intro backtrack_substitution) auto
        then show ?thesis
          using True by (simp only:) (rule diag; simp)
      next
        case c2: False
        show ?thesis
        proof (cases "i > 0 \<and> ?dp ! i ! j = ?dp ! (i - 1) ! j + 1")
          case True
          have "backtrack ?dp ref pred i j (int i - 1) (int j - 1) al de =
                  backtrack ?dp ref pred (i - 1) j (int i - 1 - 1) (int j - 1)
                    (\<lparr>reference = ref ! (i - 1), prediction = [], type = Deletion,
                      referencePosition = Some (int i - 1), predictionPosition = None\<rparr> # al)
                    (\<lparr>errorType = Deletion, referenceWord = Some (ref ! (i - 1)),
                      predictionWord = None,
                      errorReferencePosition = Some (int i - 1), errorPredictionPosition = None\<rparr> # de)"
            using True c1 c2 by (intro backtrack_deletion) auto
          then show ?thesis
            using True by (simp only:) (rule up; simp)
        next
          case c3: False
          have c4: "j > 0 \<and> ?dp ! i ! j = ?dp ! i ! (j - 1) + 1"
            using tr c1 c2 c3 by blast
          have "backtrack ?dp ref pred i j (int i - 1) (int j - 1) al de =
                  backtrack ?dp ref pred i (j - 1) (int i - 1) (int j - 1 - 1)
                    (\<lparr>reference = [], prediction = pred ! (j - 1), type = Insertion,
                      referencePosition = None, predictionPosition = Some (int j - 1)\<rparr> # al)
                    (\<lparr>errorType = Insertion, referenceWord = None,
                      predictionWord = Some (pred ! (j - 1)),
                      errorReferencePosition = None, errorPredictionPosition = Some (int j - 1)\<rparr> # de)"
            using c1 c2 c3 c4 by (intro backtrack_insertion) auto
          then show ?thesis
            using c4 by (simp only:) (rule left; simp)
        qed
      qed
    qed
  qed
qed

lemma alignWordsWithPositions_backtrack:
  assumes "backtrack (cost_matrix ref pred) ref pred (length ref) (length pred)
             (int (length ref) - 1) (int (length pred) - 1) [] [] = (i, j, rp, pp, al, de)"
  shows "alignWordsWithPositions ref pred = (al, de)"
  using assms by (simp add: alignWordsWithPositions_def Let_def)

lemma backtrack_whole:
  "\<exists>al de.
     backtrack (cost_matrix ref pred) ref pred (length ref) (length pred)
       (int (length ref) - 1) (int (length pred) - 1) [] [] = (0, 0, - 1, - 1, al, de)
     \<and> alignWordsWithPositions ref pred = (al, de)
     \<and> referenceSide al = indexed ref
     \<and> predictionSide al = indexed pred"
proof -
  obtain pre dpre where
    b: "backtrack (cost_matrix ref pred) ref pred (length ref) (length pred)
          (int (length ref) - 1) (int (length pred) - 1) [] [] = (0, 0, - 1, - 1, pre @ [], dpre @ [])"
    and r: "referenceSide pre = indexed (take (length ref) ref)"
    and p: "predictionSide pre = indexed (take (length pred) pred)"
    using backtrack_trace [of "length ref" ref "length pred" pred "[]" "[]"] by auto
  have "alignWordsWithPositions ref pred = (pre, dpre)"
    using alignWordsWithPositions_backtrack [OF b] by simp
  then show ?thesis
    using b r p by auto
qed

lemma length_indexed: "length (indexed ws) = length ws"
  by (simp add: indexed_def)

lemma length_sides:
  "length (filter (\<lambda>e. referencePosition e \<noteq> None) al) = length (referenceSide al)"
  "length (filter (\<lambda>e. predictionPosition e \<noteq> None) al) = length (predictionSide al)"
  by (simp_all add: referenceSide_def predictionSide_def)

lemma in_indexed: "(k, w) \<in> set (indexed ws) \<Longrightarrow> 0 \<le> k \<and> nat k < length ws \<and> w = ws ! nat k"
  by (auto simp: indexed_def set_zip)

lemma in_referenceSide:
  "e \<in> set al \<Longrightarrow> referencePosition e = Some k \<Longrightarrow> (k, reference e) \<in> set (referenceSide al)"
  by (force simp: referenceSide_def)

lemma in_predictionSide:
  "e \<in> set al \<Longrightarrow> predictionPosition e = Some k \<Longrightarrow> (k, prediction e) \<in> set (predictionSide al)"
  by (force simp: predictionSide_def)

text \<open>
  Claim C5. In the alignment trace of any two token sequences, the number of entries with
  a defined \<open>referencePosition\<close> is the reference length and the number with a defined
  \<open>predictionPosition\<close> is the hypothesis length; each defined position is the zero-based
  index of the entry's token in its input sequence. Indeed the entries with a reference
  position, read in order, carry the positions 0, 1, 2, ... with the reference tokens in
  their order, and likewise on the prediction side.
\<close>

theorem alignment_positions:
  "length (filter (\<lambda>e. referencePosition e \<noteq> None) (fst (alignWordsWithPositions ref pred)))
     = length ref
   \<and> length (filter (\<lambda>e. predictionPosition e \<noteq> None) (fst (alignWordsWithPositions ref pred)))
     = length pred
   \<and> referenceSide (fst (alignWordsWithPositions ref pred)) = indexed ref
   \<and> predictionSide (fst (alignWordsWithPositions ref pred)) = indexed pred
   \<and> (\<forall>e\<in>set (fst (alignWordsWithPositions ref pred)). \<forall>k.
        (referencePosition e = Some k \<longrightarrow> 0 \<le> k \<and> nat k < length ref \<and> reference e = ref ! nat k)
        \<and> (predictionPosition e = Some k \<longrightarrow> 0 \<le> k \<and> nat k < length pred \<and> prediction e = pred ! nat k))"
proof -
  obtain al de where a: "alignWordsWithPositions ref pred = (al, de)"
    and r: "referenceSide al = indexed ref" and p: "predictionSide al = indexed pred"
    using backtrack_whole [of ref pred] by blast
  have "0 \<le> k \<and> nat k < length ref \<and> reference e = ref ! nat k"
    if "e \<in> set al" "referencePosition e = Some k" for e k
    using in_indexed [of k "reference e" ref] in_referenceSide [OF that] r by simp
  moreover have "0 \<le> k \<and> nat k < length pred \<and> prediction e = pred ! nat k"
    if "e \<in> set al" "predictionPosition e = Some k" for e k
    using in_indexed [of k "prediction e" pred] in_predictionSide [OF that] p by simp
  ultimately show ?thesis
    unfolding a fst_conv length_sides r p length_indexed by blast
qed

theorem alignment_positions_witness:
  "fst (alignWordsWithPositions [js ''a'', js ''b'', js ''c''] [js ''a'', js ''c'']) =
     [\<lparr>reference = js ''a'', prediction = js ''a'', type = Correct,
       referencePosition = Some 0, predictionPosition = Some 0\<rparr>,
      \<lparr>reference = js ''b'', prediction = [], type = Deletion,
       referencePosition = Some 1, predictionPosition = None\<rparr>,
      \<lparr>reference = js ''c'', prediction = js ''c'', type = Correct,
       referencePosition = Some 2, predictionPosition = Some 1\<rparr>]
   \<and> length (filter (\<lambda>e. referencePosition e \<noteq> None)
        (fst (alignWordsWithPositions [js ''a'', js ''b'', js ''c''] [js ''a'', js ''c'']))) = 3
   \<and> length (filter (\<lambda>e. predictionPosition e \<noteq> None)
        (fst (alignWordsWithPositions [js ''a'', js ''b'', js ''c''] [js ''a'', js ''c'']))) = 2
   \<and> referenceSide (fst (alignWordsWithPositions [js ''a'', js ''b'', js ''c''] [js ''a'', js ''c'']))
       = [(0, js ''a''), (1, js ''b''), (2, js ''c'')]
   \<and> predictionSide (fst (alignWordsWithPositions [js ''a'', js ''b'', js ''c''] [js ''a'', js ''c'']))
       = [(0, js ''a''), (1, js ''c'')]"
proof -
  have e: "alignWordsWithPositions [js ''a'', js ''b'', js ''c''] [js ''a'', js ''c''] =
     ([\<lparr>reference = js ''a'', prediction = js ''a'', type = Correct,
        referencePosition = Some 0, predictionPosition = Some 0\<rparr>,
       \<lparr>reference = js ''b'', prediction = [], type = Deletion,
        referencePosition = Some 1, predictionPosition = None\<rparr>,
       \<lparr>reference = js ''c'', prediction = js ''c'', type = Correct,
        referencePosition = Some 2, predictionPosition = Some 1\<rparr>],
      [\<lparr>errorType = Deletion, referenceWord = Some (js ''b''), predictionWord = None,
        errorReferencePosition = Some 1, errorPredictionPosition = None\<rparr>])"
    by code_simp
  have i: "indexed [js ''a'', js ''b'', js ''c''] = [(0, js ''a''), (1, js ''b''), (2, js ''c'')]"
          "indexed [js ''a'', js ''c''] = [(0, js ''a''), (1, js ''c'')]"
    by (simp_all add: indexed_def upt_rec)
  show ?thesis
    using alignment_positions [of "[js ''a'', js ''b'', js ''c'']" "[js ''a'', js ''c'']"]
    unfolding e i by simp
qed

text \<open>
  Claim C10. Over the cost table built by the dynamic program, the last branch of the
  backtracking loop (the \<open>break\<close>) is never taken: at every state within the table with
  \<open>i > 0\<close> or \<open>j > 0\<close> the condition of one of the four transitions holds, so the loop
  started at \<open>(m, n)\<close> is left by its condition, with \<open>i = 0\<close> and \<open>j = 0\<close> (the loop
  function returns the values of \<open>i\<close> and \<open>j\<close> at the exit, and a \<open>break\<close> would leave
  one of them positive), and the trace accounts for every token of both sequences.
\<close>

theorem backtrack_never_falls_back:
  "(\<forall>i j. i \<le> length ref \<and> j \<le> length pred \<and> (i > 0 \<or> j > 0) \<longrightarrow>
       (i > 0 \<and> j > 0 \<and> ref ! (i - 1) = pred ! (j - 1))
       \<or> (i > 0 \<and> j > 0 \<and> cost_matrix ref pred ! i ! j = cost_matrix ref pred ! (i - 1) ! (j - 1) + 1)
       \<or> (i > 0 \<and> cost_matrix ref pred ! i ! j = cost_matrix ref pred ! (i - 1) ! j + 1)
       \<or> (j > 0 \<and> cost_matrix ref pred ! i ! j = cost_matrix ref pred ! i ! (j - 1) + 1))
   \<and> (\<exists>al de.
         backtrack (cost_matrix ref pred) ref pred (length ref) (length pred)
           (int (length ref) - 1) (int (length pred) - 1) [] [] = (0, 0, - 1, - 1, al, de)
         \<and> alignWordsWithPositions ref pred = (al, de)
         \<and> length (filter (\<lambda>e. referencePosition e \<noteq> None) al) = length ref
         \<and> length (filter (\<lambda>e. predictionPosition e \<noteq> None) al) = length pred)"
proof (intro conjI allI impI)
  fix i j
  assume "i \<le> length ref \<and> j \<le> length pred \<and> (i > 0 \<or> j > 0)"
  then show "(i > 0 \<and> j > 0 \<and> ref ! (i - 1) = pred ! (j - 1))
       \<or> (i > 0 \<and> j > 0 \<and> cost_matrix ref pred ! i ! j = cost_matrix ref pred ! (i - 1) ! (j - 1) + 1)
       \<or> (i > 0 \<and> cost_matrix ref pred ! i ! j = cost_matrix ref pred ! (i - 1) ! j + 1)
       \<or> (j > 0 \<and> cost_matrix ref pred ! i ! j = cost_matrix ref pred ! i ! (j - 1) + 1)"
    using cost_matrix_transition [of i ref j pred] by blast
next
  obtain al de where
    "backtrack (cost_matrix ref pred) ref pred (length ref) (length pred)
       (int (length ref) - 1) (int (length pred) - 1) [] [] = (0, 0, - 1, - 1, al, de)"
    "alignWordsWithPositions ref pred = (al, de)"
    "referenceSide al = indexed ref" "predictionSide al = indexed pred"
    using backtrack_whole [of ref pred] by blast
  moreover have "length (filter (\<lambda>e. referencePosition e \<noteq> None) al) = length (referenceSide al)"
                "length (filter (\<lambda>e. predictionPosition e \<noteq> None) al) = length (predictionSide al)"
    by (rule length_sides)+
  ultimately show "\<exists>al de.
         backtrack (cost_matrix ref pred) ref pred (length ref) (length pred)
           (int (length ref) - 1) (int (length pred) - 1) [] [] = (0, 0, - 1, - 1, al, de)
         \<and> alignWordsWithPositions ref pred = (al, de)
         \<and> length (filter (\<lambda>e. referencePosition e \<noteq> None) al) = length ref
         \<and> length (filter (\<lambda>e. predictionPosition e \<noteq> None) al) = length pred"
    by (simp only: length_indexed) blast
qed

theorem backtrack_never_falls_back_witness:
  "(2::nat) \<le> length [js ''a'', js ''b'', js ''c''] \<and> (1::nat) \<le> length [js ''a'', js ''c'']
   \<and> ((2::nat) > 0 \<or> (1::nat) > 0)
   \<and> [js ''a'', js ''b'', js ''c''] ! (2 - 1) \<noteq> [js ''a'', js ''c''] ! (1 - 1)
   \<and> cost_matrix [js ''a'', js ''b'', js ''c''] [js ''a'', js ''c''] ! 2 ! 1
       \<noteq> cost_matrix [js ''a'', js ''b'', js ''c''] [js ''a'', js ''c''] ! (2 - 1) ! (1 - 1) + 1
   \<and> cost_matrix [js ''a'', js ''b'', js ''c''] [js ''a'', js ''c''] ! 2 ! 1
       = cost_matrix [js ''a'', js ''b'', js ''c''] [js ''a'', js ''c''] ! (2 - 1) ! 1 + 1
   \<and> fst (backtrack (cost_matrix [js ''a'', js ''b'', js ''c''] [js ''a'', js ''c''])
             [js ''a'', js ''b'', js ''c''] [js ''a'', js ''c'']
             (length [js ''a'', js ''b'', js ''c'']) (length [js ''a'', js ''c''])
             (int (length [js ''a'', js ''b'', js ''c'']) - 1) (int (length [js ''a'', js ''c'']) - 1)
             [] []) = 0
   \<and> fst (snd (backtrack (cost_matrix [js ''a'', js ''b'', js ''c''] [js ''a'', js ''c''])
             [js ''a'', js ''b'', js ''c''] [js ''a'', js ''c'']
             (length [js ''a'', js ''b'', js ''c'']) (length [js ''a'', js ''c''])
             (int (length [js ''a'', js ''b'', js ''c'']) - 1) (int (length [js ''a'', js ''c'']) - 1)
             [] [])) = 0
   \<and> map type (fst (alignWordsWithPositions [js ''a'', js ''b'', js ''c''] [js ''a'', js ''c'']))
       = [Correct, Deletion, Correct]"
proof -
  have m: "cost_matrix [js ''a'', js ''b'', js ''c''] [js ''a'', js ''c'']
             = [[0, 1, 2], [1, 0, 1], [2, 1, 1], [3, 2, 1]]"
    by code_simp
  have t: "js ''b'' \<noteq> js ''a''"
    by (simp add: js_def)
  have a: "map type (fst (alignWordsWithPositions [js ''a'', js ''b'', js ''c''] [js ''a'', js ''c'']))
             = [Correct, Deletion, Correct]"
    by code_simp
  have b: "\<exists>al de.
         backtrack (cost_matrix [js ''a'', js ''b'', js ''c''] [js ''a'', js ''c''])
           [js ''a'', js ''b'', js ''c''] [js ''a'', js ''c'']
           (length [js ''a'', js ''b'', js ''c'']) (length [js ''a'', js ''c''])
           (int (length [js ''a'', js ''b'', js ''c'']) - 1) (int (length [js ''a'', js ''c'']) - 1)
           [] [] = (0, 0, - 1, - 1, al, de)"
    using backtrack_never_falls_back [of "[js ''a'', js ''b'', js ''c'']" "[js ''a'', js ''c'']",
            THEN conjunct2]
    by blast
  have c: "cost_matrix [js ''a'', js ''b'', js ''c''] [js ''a'', js ''c''] ! 2 ! 1
             \<noteq> cost_matrix [js ''a'', js ''b'', js ''c''] [js ''a'', js ''c''] ! (2 - 1) ! (1 - 1) + 1"
          "cost_matrix [js ''a'', js ''b'', js ''c''] [js ''a'', js ''c''] ! 2 ! 1
             = cost_matrix [js ''a'', js ''b'', js ''c''] [js ''a'', js ''c''] ! (2 - 1) ! 1 + 1"
    unfolding m by simp_all
  from b obtain al de where
    "backtrack (cost_matrix [js ''a'', js ''b'', js ''c''] [js ''a'', js ''c''])
           [js ''a'', js ''b'', js ''c''] [js ''a'', js ''c'']
           (length [js ''a'', js ''b'', js ''c'']) (length [js ''a'', js ''c''])
           (int (length [js ''a'', js ''b'', js ''c'']) - 1) (int (length [js ''a'', js ''c'']) - 1)
           [] [] = (0, 0, - 1, - 1, al, de)"
    by blast
  then show ?thesis
    using t a c by (simp only: fst_conv snd_conv) simp
qed

section \<open>Identity and full mismatch\<close>

lemma backtrack_identity:
  "backtrack dp X X i i (int i - 1) (int i - 1) al de =
     (0, 0, - 1, - 1,
      map (\<lambda>k. \<lparr>reference = X ! k, prediction = X ! k, type = Correct,
                 referencePosition = Some (int k), predictionPosition = Some (int k)\<rparr>) [0..<i] @ al,
      de)"
proof (induction i arbitrary: al)
  case 0
  show ?case by (simp add: backtrack_done)
next
  case (Suc i)
  have "backtrack dp X X (Suc i) (Suc i) (int (Suc i) - 1) (int (Suc i) - 1) al de =
          backtrack dp X X i i (int i - 1) (int i - 1)
            (\<lparr>reference = X ! i, prediction = X ! i, type = Correct,
              referencePosition = Some (int i), predictionPosition = Some (int i)\<rparr> # al) de"
    using backtrack_match [of "Suc i" "Suc i" X X dp "int (Suc i) - 1" "int (Suc i) - 1" al de]
    by simp
  then show ?case
    by (simp add: Suc.IH)
qed

lemma alignWordsWithPositions_identity:
  "alignWordsWithPositions X X =
     (map (\<lambda>k. \<lparr>reference = X ! k, prediction = X ! k, type = Correct,
                 referencePosition = Some (int k), predictionPosition = Some (int k)\<rparr>)
          [0..<length X], [])"
  by (simp add: alignWordsWithPositions_def Let_def backtrack_identity)

lemma report_of_words_identity: "wer (report_of_words X X) = 0"
proof -
  have t: "map type (alignment (report_of_words X X)) = replicate (length X) Correct"
    by (simp add: report_of_words_counts(5) alignWordsWithPositions_identity comp_def
          map_replicate_const)
  have f: "filter (\<lambda>e. type e = T) al = []" if "map type al = replicate n Correct" "T \<noteq> Correct"
    for T al n
  proof -
    have "\<forall>e\<in>set al. type e = Correct"
      using that(1) by (metis (no_types, lifting) image_eqI in_set_replicate set_map)
    then show ?thesis using that(2) by (auto simp: filter_empty_conv)
  qed
  have "substitutions (report_of_words X X) = 0" "insertions (report_of_words X X) = 0"
       "deletions (report_of_words X X) = 0"
    using f [OF t] by (simp_all add: report_of_words_counts(1,2,3))
  then show ?thesis
    by (simp add: report_of_words_rates(1))
qed

text \<open>
  Claim C2. Aligning a token sequence \<open>X\<close> against itself yields a trace of exactly
  \<open>|X|\<close> entries, all tagged \<open>correct\<close> (entry \<open>k\<close> pairs \<open>X[k]\<close> with itself at
  position \<open>k\<close> on both sides, and there is no detailed error), and the report has
  \<open>wer = 0\<close>; so has the report of \<open>calculateWER\<close> on a text against itself.
\<close>

theorem identity_alignment:
  "alignWordsWithPositions X X =
     (map (\<lambda>k. \<lparr>reference = X ! k, prediction = X ! k, type = Correct,
                 referencePosition = Some (int k), predictionPosition = Some (int k)\<rparr>)
          [0..<length X], [])
   \<and> map type (fst (alignWordsWithPositions X X)) = replicate (length X) Correct
   \<and> length (fst (alignWordsWithPositions X X)) = length X
   \<and> wer (report_of_words X X) = 0
   \<and> wer (calculateWER lc r r opts) = 0"
proof -
  have "fst (tokenize_inputs lc r r opts) = snd (tokenize_inputs lc r r opts)"
    by (cases opts) (simp_all add: tokenize_inputs_def Let_def)
  then have "wer (calculateWER lc r r opts) = 0"
    by (simp add: calculateWER_report report_of_words_identity)
  then show ?thesis
    by (simp add: alignWordsWithPositions_identity report_of_words_identity comp_def
          map_replicate_const)
qed

theorem identity_alignment_witness:
  "alignWordsWithPositions [js ''the'', js ''quick'', js ''fox''] [js ''the'', js ''quick'', js ''fox''] =
     ([\<lparr>reference = js ''the'', prediction = js ''the'', type = Correct,
        referencePosition = Some 0, predictionPosition = Some 0\<rparr>,
       \<lparr>reference = js ''quick'', prediction = js ''quick'', type = Correct,
        referencePosition = Some 1, predictionPosition = Some 1\<rparr>,
       \<lparr>reference = js ''fox'', prediction = js ''fox'', type = Correct,
        referencePosition = Some 2, predictionPosition = Some 2\<rparr>], [])
   \<and> wer (calculateWER toLowerCase_ascii (js ''The quick fox'') (js ''The quick fox'')
             (Some DEFAULT_PREPROCESS_OPTIONS)) = 0"
  using identity_alignment [of "[js ''the'', js ''quick'', js ''fox'']" toLowerCase_ascii
          "js ''The quick fox''" "Some DEFAULT_PREPROCESS_OPTIONS"]
  by (simp add: upt_rec)

lemma cell_mismatch:
  assumes "set ref \<inter> set pred = {}" "i \<le> length ref" "j \<le> length pred"
  shows "cell ref pred i j = max i j"
  using assms
proof (induction ref pred i j rule: cell.induct)
  case (1 ref pred j)
  show ?case by simp
next
  case (2 ref pred i)
  show ?case by simp
next
  case (3 ref pred i j)
  have "ref ! i \<in> set ref" "pred ! j \<in> set pred"
    using "3.prems" by simp_all
  then have ne: "ref ! i \<noteq> pred ! j"
    using "3.prems"(1) by (metis IntI empty_iff)
  have "cell ref pred i j = max i j" "cell ref pred i (Suc j) = max i (Suc j)"
       "cell ref pred (Suc i) j = max (Suc i) j"
    using "3.IH" "3.prems" ne by simp_all
  then show ?case
    using ne by simp
qed

lemma backtrack_mismatch:
  assumes "set ref \<inter> set pred = {}" "i \<le> length ref" "i \<le> length pred"
  shows "backtrack (cost_matrix ref pred) ref pred i i (int i - 1) (int i - 1) al de =
     (0, 0, - 1, - 1,
      map (\<lambda>k. \<lparr>reference = ref ! k, prediction = pred ! k, type = Substitution,
                 referencePosition = Some (int k), predictionPosition = Some (int k)\<rparr>) [0..<i] @ al,
      map (\<lambda>k. \<lparr>errorType = Substitution, referenceWord = Some (ref ! k),
                 predictionWord = Some (pred ! k),
                 errorReferencePosition = Some (int k), errorPredictionPosition = Some (int k)\<rparr>)
          [0..<i] @ de)"
  using assms(2,3)
proof (induction i arbitrary: al de)
  case 0
  show ?case by (simp add: backtrack_done)
next
  case (Suc i)
  have "ref ! i \<in> set ref" "pred ! i \<in> set pred"
    using Suc.prems by simp_all
  then have ne: "ref ! i \<noteq> pred ! i"
    using assms(1) by (metis IntI empty_iff)
  have c: "cost_matrix ref pred ! Suc i ! Suc i = cost_matrix ref pred ! i ! i + 1"
    using Suc.prems cell_mismatch [OF assms(1), of "Suc i" "Suc i"] cell_mismatch [OF assms(1), of i i]
    by (simp add: cost_matrix_cell del: cell.simps)
  have "backtrack (cost_matrix ref pred) ref pred (Suc i) (Suc i) (int (Suc i) - 1) (int (Suc i) - 1) al de =
          backtrack (cost_matrix ref pred) ref pred i i (int i - 1) (int i - 1)
            (\<lparr>reference = ref ! i, prediction = pred ! i, type = Substitution,
              referencePosition = Some (int i), predictionPosition = Some (int i)\<rparr> # al)
            (\<lparr>errorType = Substitution, referenceWord = Some (ref ! i),
              predictionWord = Some (pred ! i),
              errorReferencePosition = Some (int i), errorPredictionPosition = Some (int i)\<rparr> # de)"
    using backtrack_substitution [of "Suc i" "Suc i" ref pred "cost_matrix ref pred"
            "int (Suc i) - 1" "int (Suc i) - 1" al de] ne c
    by simp
  then show ?case
    using Suc.prems by (simp add: Suc.IH)
qed

text \<open>
  Claim C3. For two token sequences of equal length in which no reference token equals
  any hypothesis token, the alignment consists of substitution entries only, one per
  position, with no insertion and no deletion entry: at every state \<open>(i, i)\<close> the tokens
  differ and \<open>dp[i][i] = dp[i-1][i-1] + 1\<close>, so the substitution branch, tried before
  deletion and insertion, is taken.
\<close>

theorem full_mismatch_all_substitutions:
  assumes "length ref = length pred" "set ref \<inter> set pred = {}"
  shows "alignWordsWithPositions ref pred =
     (map (\<lambda>k. \<lparr>reference = ref ! k, prediction = pred ! k, type = Substitution,
                 referencePosition = Some (int k), predictionPosition = Some (int k)\<rparr>)
          [0..<length ref],
      map (\<lambda>k. \<lparr>errorType = Substitution, referenceWord = Some (ref ! k),
                 predictionWord = Some (pred ! k),
                 errorReferencePosition = Some (int k), errorPredictionPosition = Some (int k)\<rparr>)
          [0..<length ref])
   \<and> map type (fst (alignWordsWithPositions ref pred)) = replicate (length ref) Substitution
   \<and> filter (\<lambda>e. type e = Insertion \<or> type e = Deletion) (fst (alignWordsWithPositions ref pred)) = []"
proof -
  have a: "alignWordsWithPositions ref pred =
     (map (\<lambda>k. \<lparr>reference = ref ! k, prediction = pred ! k, type = Substitution,
                 referencePosition = Some (int k), predictionPosition = Some (int k)\<rparr>)
          [0..<length ref],
      map (\<lambda>k. \<lparr>errorType = Substitution, referenceWord = Some (ref ! k),
                 predictionWord = Some (pred ! k),
                 errorReferencePosition = Some (int k), errorPredictionPosition = Some (int k)\<rparr>)
          [0..<length ref])"
    using backtrack_mismatch [OF assms(2), of "length ref" "[]" "[]"] assms(1)
    by (simp add: alignWordsWithPositions_def Let_def)
  show ?thesis
    unfolding a by (simp add: comp_def map_replicate_const filter_empty_conv)
qed

theorem full_mismatch_all_substitutions_witness:
  "length [js ''a'', js ''b''] = length [js ''x'', js ''y'']
   \<and> set [js ''a'', js ''b''] \<inter> set [js ''x'', js ''y''] = {}
   \<and> alignWordsWithPositions [js ''a'', js ''b''] [js ''x'', js ''y''] =
     ([\<lparr>reference = js ''a'', prediction = js ''x'', type = Substitution,
        referencePosition = Some 0, predictionPosition = Some 0\<rparr>,
       \<lparr>reference = js ''b'', prediction = js ''y'', type = Substitution,
        referencePosition = Some 1, predictionPosition = Some 1\<rparr>],
      [\<lparr>errorType = Substitution, referenceWord = Some (js ''a''), predictionWord = Some (js ''x''),
        errorReferencePosition = Some 0, errorPredictionPosition = Some 0\<rparr>,
       \<lparr>errorType = Substitution, referenceWord = Some (js ''b''), predictionWord = Some (js ''y''),
        errorReferencePosition = Some 1, errorPredictionPosition = Some 1\<rparr>])"
proof -
  have l: "length [js ''a'', js ''b''] = length [js ''x'', js ''y'']"
    by simp
  have d: "set [js ''a'', js ''b''] \<inter> set [js ''x'', js ''y''] = {}"
    by (simp add: js_def)
  show ?thesis
    using full_mismatch_all_substitutions [OF l d] l d by (simp add: upt_rec)
qed

section \<open>No limit on the size of the input\<close>

lemma whitespace_tokens_a_space:
  "whitespace_tokens (concat (replicate k (js ''a '')) @ s) = replicate k (js ''a'') @ whitespace_tokens s"
proof (induction k)
  case 0
  show ?case by simp
next
  case (Suc k)
  have a: "js ''a '' = [0x61, 0x20]" "js ''a'' = [0x61]"
    by (simp_all add: js_def)
  have n: "\<not> isWhiteSpace 0x61" "isWhiteSpace 0x20"
    by (simp_all add: isWhiteSpace_def)
  let ?rest = "concat (replicate k (js ''a '')) @ s"
  have "whitespace_tokens ([0x61] @ (0x20 # ?rest)) = [0x61] # whitespace_tokens (0x20 # ?rest)"
    by (rule whitespace_tokens_run) (simp_all add: n)
  also have "whitespace_tokens (0x20 # ?rest) = whitespace_tokens ?rest"
    by (simp add: whitespace_tokens_skip n whitespace_tokens_dropWhile)
  finally show ?case
    using Suc.IH by (simp add: a)
qed

lemma many_tokens:
  "whitespace_tokens (concat (replicate k (js ''a ''))) = replicate k (js ''a'')"
  using whitespace_tokens_a_space [of k "[]"] by (simp add: whitespace_tokens_Nil)

lemma tokenize_inputs_None:
  "tokenize_inputs lc r p None = (whitespace_tokens r, whitespace_tokens p)"
  by (simp add: tokenize_inputs_def words_of_tokens)

lemma calculateWER_run_cases:
  "calculateWER_run canAllocate lc r p opts =
     (if canAllocate (length (fst (tokenize_inputs lc r p opts)) + 1)
                     (length (snd (tokenize_inputs lc r p opts)) + 1)
      then Report (calculateWER lc r p opts) else AllocationFailed)"
  by (simp add: calculateWER_run_def calculateWER_def Let_def split: prod.splits)

lemma many_tokens_run:
  "calculateWER_run canAllocate lc (concat (replicate (Suc N) (js ''a ''))) [] None =
     (if canAllocate (N + 2) 1
      then Report (calculateWER lc (concat (replicate (Suc N) (js ''a ''))) [] None)
      else AllocationFailed)"
proof -
  have "length (fst (tokenize_inputs lc (concat (replicate (Suc N) (js ''a ''))) [] None)) + 1 = N + 2"
    by (simp add: tokenize_inputs_None many_tokens del: replicate.simps)
  moreover have "length (snd (tokenize_inputs lc (concat (replicate (Suc N) (js ''a ''))) [] None)) + 1 = 1"
    by (simp add: tokenize_inputs_None whitespace_tokens_Nil)
  ultimately show ?thesis
    by (simp only: calculateWER_run_cases)
qed

lemma many_tokens_totalWords:
  "totalWords (calculateWER lc (concat (replicate (Suc N) (js ''a ''))) p None) = Suc N"
  by (simp only: calculateWER_report report_of_words_counts(4) tokenize_inputs_None fst_conv
        many_tokens length_replicate)

text \<open>
  Claim C8 states that some bound \<open>N\<close> on the length of a token sequence exists beyond
  which the computation signals a size-limit error before the cost table is allocated,
  instead of proceeding. The code has no such bound: whatever \<open>N\<close> is, on a reference of
  \<open>N + 1\<close> tokens and an empty prediction it proceeds to the allocation, and an engine
  with room for the \<open>N + 2\<close> cells of that table returns the report.
\<close>

theorem no_size_limit_counterexample:
  "\<not> (\<exists>N. \<forall>canAllocate lc r p opts.
         N < length (fst (tokenize_inputs lc r p opts)) \<or> N < length (snd (tokenize_inputs lc r p opts))
         \<longrightarrow> calculateWER_run canAllocate lc r p opts = SizeLimitError)"
proof
  assume "\<exists>N. \<forall>canAllocate lc r p opts.
         N < length (fst (tokenize_inputs lc r p opts)) \<or> N < length (snd (tokenize_inputs lc r p opts))
         \<longrightarrow> calculateWER_run canAllocate lc r p opts = SizeLimitError"
  then obtain N where
    N: "\<And>canAllocate lc r p opts.
         N < length (fst (tokenize_inputs lc r p opts)) \<or> N < length (snd (tokenize_inputs lc r p opts))
         \<Longrightarrow> calculateWER_run canAllocate lc r p opts = SizeLimitError"
    by blast
  let ?r = "concat (replicate (Suc N) (js ''a ''))"
  have "N < length (fst (tokenize_inputs toLowerCase_ascii ?r [] None))"
    by (simp only: tokenize_inputs_None fst_conv many_tokens length_replicate lessI)
  then have "calculateWER_run (\<lambda>rows cols. rows * cols \<le> N + 2) toLowerCase_ascii ?r [] None
               = SizeLimitError"
    using N by blast
  moreover have "calculateWER_run (\<lambda>rows cols. rows * cols \<le> N + 2) toLowerCase_ascii ?r [] None
               = Report (calculateWER toLowerCase_ascii ?r [] None)"
    by (simp only: many_tokens_run) simp
  ultimately show False
    by simp
qed

text \<open>
  Claim C8, amended. No upper bound on the length of the token sequences is imposed: for
  every \<open>N\<close> there is an input whose reference token count exceeds \<open>N\<close> (\<open>N + 1\<close>
  times \<open>"a "\<close>, against the empty prediction) on which the computation signals no
  size-limit error but proceeds to allocate the cost table, of \<open>N + 2\<close> rows and one
  column; it returns a report with \<open>totalWords = N + 1\<close> when the engine can allocate
  that table, and fails in the allocation when it cannot.
\<close>

theorem calculateWER_proceeds_to_allocation:
  "N < length (fst (tokenize_inputs lc (concat (replicate (Suc N) (js ''a ''))) [] None))
   \<and> calculateWER_run canAllocate lc (concat (replicate (Suc N) (js ''a ''))) [] None \<noteq> SizeLimitError
   \<and> (canAllocate (N + 2) 1 \<longrightarrow>
        (\<exists>rep. calculateWER_run canAllocate lc (concat (replicate (Suc N) (js ''a ''))) [] None
                 = Report rep
               \<and> totalWords rep = Suc N))
   \<and> (\<not> canAllocate (N + 2) 1 \<longrightarrow>
        calculateWER_run canAllocate lc (concat (replicate (Suc N) (js ''a ''))) [] None
          = AllocationFailed)"
proof -
  have "N < length (fst (tokenize_inputs lc (concat (replicate (Suc N) (js ''a ''))) [] None))"
    by (simp only: tokenize_inputs_None fst_conv many_tokens length_replicate lessI)
  then show ?thesis
    by (simp add: many_tokens_run many_tokens_totalWords del: replicate.simps)
qed

theorem calculateWER_proceeds_to_allocation_witness:
  "(3::nat) < length (fst (tokenize_inputs toLowerCase_ascii (js ''a a a a '') [] None))
   \<and> (3 + 2) * 1 \<le> (5::nat)
   \<and> (\<exists>rep. calculateWER_run (\<lambda>rows cols. rows * cols \<le> 5) toLowerCase_ascii (js ''a a a a '') [] None
              = Report rep
            \<and> totalWords rep = 4)
   \<and> \<not> (3 + 2) * 1 \<le> (4::nat)
   \<and> calculateWER_run (\<lambda>rows cols. rows * cols \<le> 4) toLowerCase_ascii (js ''a a a a '') [] None
        = AllocationFailed"
proof -
  have c: "concat (replicate (Suc 3) (js ''a '')) = js ''a a a a ''"
    by (simp add: js_def numeral_3_eq_3)
  show ?thesis
    using calculateWER_proceeds_to_allocation
            [of 3 toLowerCase_ascii "\<lambda>rows cols. rows * cols \<le> 5"]
          calculateWER_proceeds_to_allocation
            [of 3 toLowerCase_ascii "\<lambda>rows cols. rows * cols \<le> 4"]
    unfolding c by simp
qed

end
